theory Spec2Isabelle
  imports Complex_Main "HOL-Library.Sublist"
begin

section \<open>Composite scorer (src/src/services/scoring.ts)\<close>

text \<open>
  JavaScript numbers that hold lengths, counts and scores are modelled as \<open>int\<close>; the
  quotients the scorer forms (the missing-alt ratio, the technical average, the weighted
  contributions) are modelled as exact \<open>real\<close> quotients, and \<open>Math.round\<close> as
  \<open>round\<close>, which is \<open>\<lfloor>x + 1/2\<rfloor>\<close> exactly as \<open>Math.round\<close> rounds halves upwards.
  The rounding error of IEEE doubles is not modelled; NaN and infinite inputs are outside
  the model.
  A field of type \<open>string | null\<close> is a \<open>string option\<close>; the test \<open>!field\<close> holds
  for \<open>null\<close> and for the empty string.
\<close>

definition truthy :: "string option \<Rightarrow> bool" where
  "truthy s = (case s of None \<Rightarrow> False | Some t \<Rightarrow> t \<noteq> [])"

subsection \<open>The analysis record (types/seo-types.ts)\<close>

record TitleAnalysis =
  title_text :: "string option"
  title_length :: int
  title_issues :: "string list"

record MetaDescriptionAnalysis =
  meta_text :: "string option"
  meta_length :: int
  meta_issues :: "string list"

record CanonicalAnalysis =
  canonical_url :: "string option"
  isSelfReferencing :: bool
  canonical_issues :: "string list"

record RobotsAnalysis =
  robots_meta :: "string option"
  xRobotsTag :: "string option"
  isIndexable :: bool

record OpenGraphAnalysis =
  og_title :: "string option"
  og_description :: "string option"
  og_image :: "string option"
  og_url :: "string option"
  og_type :: "string option"
  og_issues :: "string list"

record HeadingSummary =
  h1Count :: int
  h1Text :: "string list"
  totalHeadings :: int
  heading_issues :: "string list"

record ImageSummary =
  total :: int
  missingAlt :: int
  image_issues :: "string list"

record LinkSummary =
  internal :: int
  external :: int
  nofollow :: int

record ContentAnalysis =
  wordCount :: int
  readabilityScore :: int

text \<open>
  \<open>PageAnalysis\<close> as the scorer receives it. Its \<open>score\<close> field is the scorer's own
  output, assigned by the caller after the call, and is not part of the input.
\<close>

record PageAnalysis =
  url :: string
  statusCode :: int
  redirectChain :: "string list"
  responseTime :: int
  title :: TitleAnalysis
  metaDescription :: MetaDescriptionAnalysis
  canonical :: CanonicalAnalysis
  robots :: RobotsAnalysis
  openGraph :: OpenGraphAnalysis
  headings :: HeadingSummary
  images :: ImageSummary
  links :: LinkSummary
  content :: "ContentAnalysis option"

record Breakdown =
  b_title :: int
  b_meta :: int
  b_headings :: int
  b_images :: int
  b_links :: int
  b_technical :: int

record SeoScore =
  overall :: int
  breakdown :: Breakdown

record CategoryScore =
  score :: int
  weight :: int
  weighted :: real

subsection \<open>Thresholds and weights (constants/seo-rules.ts)\<close>

definition title_minLength :: int where "title_minLength = 30"
definition title_maxLength :: int where "title_maxLength = 60"
definition title_idealMinLength :: int where "title_idealMinLength = 50"
definition title_idealMaxLength :: int where "title_idealMaxLength = 60"

definition meta_minLength :: int where "meta_minLength = 70"
definition meta_maxLength :: int where "meta_maxLength = 160"
definition meta_idealMinLength :: int where "meta_idealMinLength = 150"
definition meta_idealMaxLength :: int where "meta_idealMaxLength = 160"

definition maxH1Count :: int where "maxH1Count = 1"
definition maxPerPage :: int where "maxPerPage = 150"
definition minWordCount_homepage :: int where "minWordCount_homepage = 200"
definition thinContentThreshold :: int where "thinContentThreshold = 200"

definition W_title :: int where "W_title = 20"
definition W_metaDescription :: int where "W_metaDescription = 10"
definition W_headings :: int where "W_headings = 15"
definition W_images :: int where "W_images = 10"
definition W_links :: int where "W_links = 10"
definition W_canonical :: int where "W_canonical = 10"
definition W_openGraph :: int where "W_openGraph = 5"
definition W_robots :: int where "W_robots = 10"
definition W_content :: int where "W_content = 10"

lemmas seo_rules =
  title_minLength_def title_maxLength_def title_idealMinLength_def title_idealMaxLength_def
  meta_minLength_def meta_maxLength_def meta_idealMinLength_def meta_idealMaxLength_def
  maxH1Count_def maxPerPage_def minWordCount_homepage_def thinContentThreshold_def

lemmas score_weights =
  W_title_def W_metaDescription_def W_headings_def W_images_def W_links_def
  W_canonical_def W_openGraph_def W_robots_def W_content_def

subsection \<open>Per-category scores\<close>

text \<open>\<open>Math.max(0, Math.min(100, score))\<close>, the last line of the clamped categories.\<close>

definition clamp100 :: "int \<Rightarrow> int" where
  "clamp100 s = max 0 (min 100 s)"

definition scoreTitleCategory :: "PageAnalysis \<Rightarrow> int" where
  "scoreTitleCategory analysis =
     (let t = title analysis in
      if \<not> truthy (title_text t) then 0
      else
        let len = title_length t;
            score0 =
              (if len \<ge> title_idealMinLength \<and> len \<le> title_idealMaxLength then 100
               else if len \<ge> title_minLength \<and> len \<le> title_maxLength then 80
               else if len > title_maxLength then 50
               else if len < title_minLength \<and> len > 0 then 40
               else 60);
            score1 = score0 - int (length (title_issues t)) * 10
        in clamp100 score1)"

definition scoreMetaCategory :: "PageAnalysis \<Rightarrow> int" where
  "scoreMetaCategory analysis =
     (let m = metaDescription analysis in
      if \<not> truthy (meta_text m) then 0
      else
        let len = meta_length m;
            score0 =
              (if len \<ge> meta_idealMinLength \<and> len \<le> meta_idealMaxLength then 100
               else if len \<ge> meta_minLength \<and> len \<le> meta_maxLength then 80
               else if len > meta_maxLength then 50
               else if len < meta_minLength \<and> len > 0 then 40
               else 60);
            score1 = score0 - int (length (meta_issues m)) * 10
        in clamp100 score1)"

definition scoreHeadingsCategory :: "PageAnalysis \<Rightarrow> int" where
  "scoreHeadingsCategory analysis =
     (let h = headings analysis;
          score0 = 100;
          score1 = (if h1Count h = 0 then score0 - 40
                    else if h1Count h > maxH1Count then score0 - 20
                    else score0);
          score2 = (if totalHeadings h = 0 then score1 - 30 else score1);
          score3 = score2 - int (length (heading_issues h)) * 10
      in clamp100 score3)"

definition scoreImagesCategory :: "PageAnalysis \<Rightarrow> int" where
  "scoreImagesCategory analysis =
     (let im = images analysis in
      if total im = 0 then 100
      else
        let score0 = 100;
            missingAltRatio = (real_of_int (missingAlt im) / real_of_int (total im));
            score1 = (if missingAltRatio > 0.5 then score0 - 40
                      else if missingAltRatio > 0.2 then score0 - 20
                      else if missingAltRatio > 0 then score0 - 10
                      else score0);
            score2 = score1 - int (length (image_issues im)) * 5
        in clamp100 score2)"

definition scoreLinksCategory :: "PageAnalysis \<Rightarrow> int" where
  "scoreLinksCategory analysis =
     (let l = links analysis;
          score0 = 100;
          score1 = (if internal l = 0 then score0 - 20 else score0);
          totalLinks = internal l + external l;
          score2 = (if totalLinks > maxPerPage then score1 - 15 else score1);
          score3 = (if totalLinks = 0 then score2 - 30 else score2)
      in clamp100 score3)"

definition scoreCanonicalCategory :: "PageAnalysis \<Rightarrow> int" where
  "scoreCanonicalCategory analysis =
     (let c = canonical analysis in
      if \<not> truthy (canonical_url c) then 30
      else
        let score0 = 100;
            score1 = score0 - int (length (canonical_issues c)) * 15
        in clamp100 score1)"

definition scoreOpenGraphCategory :: "PageAnalysis \<Rightarrow> int" where
  "scoreOpenGraphCategory analysis =
     (let og = openGraph analysis;
          score0 = 0;
          score1 = (if truthy (og_title og) then score0 + 25 else score0);
          score2 = (if truthy (og_description og) then score1 + 25 else score1);
          score3 = (if truthy (og_image og) then score2 + 25 else score2);
          score4 = (if truthy (og_url og) then score3 + 15 else score3);
          score5 = (if truthy (og_type og) then score4 + 10 else score4);
          score6 = score5 - int (length (og_issues og)) * 10
      in clamp100 score6)"

definition scoreRobotsCategory :: "PageAnalysis \<Rightarrow> int" where
  "scoreRobotsCategory analysis =
     (if \<not> isIndexable (robots analysis) then 20 else 100)"

definition scoreContentCategory :: "PageAnalysis \<Rightarrow> int" where
  "scoreContentCategory analysis =
     (case content analysis of
        None \<Rightarrow> 50
      | Some c \<Rightarrow>
          let score0 = 100;
              score1 = (if wordCount c < thinContentThreshold then score0 - 40
                        else if wordCount c < minWordCount_homepage then score0 - 20
                        else score0)
          in clamp100 score1)"

subsection \<open>Aggregation\<close>

text \<open>
  \<open>categories\<close> is the object literal of \<open>calculateSeoScore\<close>, kept as an association
  list in insertion order (the order \<open>Object.values\<close> walks it); assigning
  \<open>categories.technical\<close> keeps the key's position.
\<close>

definition technicalWeight :: int where
  "technicalWeight = W_canonical + W_openGraph + W_robots + W_content"

definition technicalScore :: "PageAnalysis \<Rightarrow> real" where
  "technicalScore analysis =
     real_of_int
       (scoreCanonicalCategory analysis * W_canonical +
        scoreOpenGraphCategory analysis * W_openGraph +
        scoreRobotsCategory analysis * W_robots +
        scoreContentCategory analysis * W_content) / real_of_int technicalWeight"

definition categories :: "PageAnalysis \<Rightarrow> (string \<times> CategoryScore) list" where
  "categories analysis =
     [(''title'', \<lparr>score = scoreTitleCategory analysis, weight = W_title, weighted = 0\<rparr>),
      (''meta'', \<lparr>score = scoreMetaCategory analysis, weight = W_metaDescription, weighted = 0\<rparr>),
      (''headings'', \<lparr>score = scoreHeadingsCategory analysis, weight = W_headings, weighted = 0\<rparr>),
      (''images'', \<lparr>score = scoreImagesCategory analysis, weight = W_images, weighted = 0\<rparr>),
      (''links'', \<lparr>score = scoreLinksCategory analysis, weight = W_links, weighted = 0\<rparr>),
      (''technical'', \<lparr>score = round (technicalScore analysis), weight = technicalWeight,
                        weighted = 0\<rparr>)]"

definition setWeighted :: "int \<Rightarrow> CategoryScore \<Rightarrow> CategoryScore" where
  "setWeighted totalWeight cat =
     cat\<lparr>weighted := real_of_int (score cat * weight cat) / real_of_int totalWeight\<rparr>"

definition scoreOf :: "(string \<times> CategoryScore) list \<Rightarrow> string \<Rightarrow> int" where
  "scoreOf cats k = (case map_of cats k of None \<Rightarrow> 0 | Some c \<Rightarrow> score c)"

definition calculateSeoScore :: "PageAnalysis \<Rightarrow> SeoScore" where
  "calculateSeoScore analysis =
     (let cats = categories analysis;
          totalWeight = foldl (\<lambda>sum c. sum + weight c) 0 (map snd cats);
          cats' = map (\<lambda>(k, c). (k, setWeighted totalWeight c)) cats;
          overall0 = round (foldl (\<lambda>sum c. sum + weighted c) 0 (map snd cats'))
      in \<lparr>overall = max 0 (min 100 overall0),
          breakdown = \<lparr>b_title = scoreOf cats' ''title'',
                        b_meta = scoreOf cats' ''meta'',
                        b_headings = scoreOf cats' ''headings'',
                        b_images = scoreOf cats' ''images'',
                        b_links = scoreOf cats' ''links'',
                        b_technical = scoreOf cats' ''technical''\<rparr>\<rparr>)"

text \<open>
  The blend in the words of the specification: the six category scores times their weights,
  over the sum of the weights, rounded and clamped, the technical score being the weighted
  average of its four parts.
\<close>

definition spec_technical :: "PageAnalysis \<Rightarrow> real" where
  "spec_technical analysis =
     (real_of_int (scoreCanonicalCategory analysis) * real_of_int W_canonical +
      real_of_int (scoreOpenGraphCategory analysis) * real_of_int W_openGraph +
      real_of_int (scoreRobotsCategory analysis) * real_of_int W_robots +
      real_of_int (scoreContentCategory analysis) * real_of_int W_content)
     / real_of_int (W_canonical + W_openGraph + W_robots + W_content)"

definition spec_blend :: "PageAnalysis \<Rightarrow> real \<Rightarrow> int" where
  "spec_blend analysis technical =
     max 0 (min 100 (round
       ((real_of_int (scoreTitleCategory analysis) * real_of_int W_title +
         real_of_int (scoreMetaCategory analysis) * real_of_int W_metaDescription +
         real_of_int (scoreHeadingsCategory analysis) * real_of_int W_headings +
         real_of_int (scoreImagesCategory analysis) * real_of_int W_images +
         real_of_int (scoreLinksCategory analysis) * real_of_int W_links +
         technical * real_of_int (W_canonical + W_openGraph + W_robots + W_content))
        / real_of_int (W_title + W_metaDescription + W_headings + W_images + W_links +
                       (W_canonical + W_openGraph + W_robots + W_content)))))"

text \<open>A page used to evaluate the scorer: good title and description, one heading issue,
  no images, a few links, no canonical URL, no Open Graph tags, indexable, no content
  analysis.\<close>

definition page1 :: PageAnalysis where
  "page1 =
     \<lparr>url = ''https://example.com/'', statusCode = 200, redirectChain = [], responseTime = 120,
      title = \<lparr>title_text = Some ''A title'', title_length = 55, title_issues = []\<rparr>,
      metaDescription = \<lparr>meta_text = Some ''A description'', meta_length = 155,
                          meta_issues = []\<rparr>,
      canonical = \<lparr>canonical_url = None, isSelfReferencing = False, canonical_issues = []\<rparr>,
      robots = \<lparr>robots_meta = None, xRobotsTag = None, isIndexable = True\<rparr>,
      openGraph = \<lparr>og_title = None, og_description = None, og_image = None, og_url = None,
                    og_type = None, og_issues = []\<rparr>,
      headings = \<lparr>h1Count = 1, h1Text = [''A title''], totalHeadings = 3,
                   heading_issues = [''skipped_level'']\<rparr>,
      images = \<lparr>total = 0, missingAlt = 0, image_issues = []\<rparr>,
      links = \<lparr>internal = 5, external = 2, nofollow = 0\<rparr>,
      content = None\<rparr>"

text \<open>A page with nothing on it (scenario 5 of the specification).\<close>

definition page0 :: PageAnalysis where
  "page0 =
     \<lparr>url = ''https://example.com/'', statusCode = 200, redirectChain = [], responseTime = 120,
      title = \<lparr>title_text = None, title_length = 0, title_issues = []\<rparr>,
      metaDescription = \<lparr>meta_text = None, meta_length = 0, meta_issues = []\<rparr>,
      canonical = \<lparr>canonical_url = None, isSelfReferencing = False, canonical_issues = []\<rparr>,
      robots = \<lparr>robots_meta = None, xRobotsTag = None, isIndexable = False\<rparr>,
      openGraph = \<lparr>og_title = None, og_description = None, og_image = None, og_url = None,
                    og_type = None, og_issues = []\<rparr>,
      headings = \<lparr>h1Count = 0, h1Text = [], totalHeadings = 0, heading_issues = []\<rparr>,
      images = \<lparr>total = 0, missingAlt = 0, image_issues = []\<rparr>,
      links = \<lparr>internal = 0, external = 0, nofollow = 0\<rparr>,
      content = None\<rparr>"

section \<open>Heading analyzer (src/src/services/heading-analyzer.ts)\<close>

subsection \<open>Data\<close>

record FlatHeading =
  h_tag :: string
  h_text :: string
  h_order :: int

datatype Severity = Critical | High | Medium | Low

record SeoIssue =
  type :: string
  severity :: Severity
  detail :: string

record KeywordPresence =
  inH1 :: bool
  inH2 :: "string list"
  count :: int

text \<open>
  A \<open>HeadingNode\<close> object lives in a store: its address is its index in the list of
  allocated nodes, and \<open>children\<close> holds the addresses of the child objects, since the
  builder keeps pushing children into nodes that are already linked into the tree.
\<close>

record HeadingNode = FlatHeading +
  children :: "nat list"

text \<open>The nested value a caller sees when it walks the returned array.\<close>

datatype HeadingTree =
  HNode (t_tag: string) (t_text: string) (t_order: int) (t_children: "HeadingTree list")

record HeadingAnalysis =
  headingTree :: "HeadingTree list"
  flatList :: "FlatHeading list"
  counts :: "string \<Rightarrow> int option"
  keywordPresence :: "KeywordPresence option"
  issues :: "SeoIssue list"

subsection \<open>Strings and numbers\<close>

text \<open>
  A string is the list of its characters. \<open>String.prototype.toLowerCase\<close> and
  \<open>toUpperCase\<close> are the language's Unicode case mappings, not code of this repository:
  the analyzer takes them as the two fields of a \<open>CaseMapping\<close>, and every statement
  below holds for whatever mappings are passed. \<open>asciiCase\<close> is their restriction to
  ASCII text, where they map exactly the letters A-Z and a-z; it serves to evaluate the
  analyzer on ASCII headings. \<open>includesStr\<close> is \<open>String.prototype.includes\<close>, a
  contiguous-substring test; the whitespace test of \<open>trim\<close> covers the ASCII whitespace
  characters.
\<close>

record CaseMapping =
  toLowerCase :: "string \<Rightarrow> string"
  toUpperCase :: "string \<Rightarrow> string"

definition upperChars :: string where "upperChars = ''ABCDEFGHIJKLMNOPQRSTUVWXYZ''"
definition lowerChars :: string where "lowerChars = ''abcdefghijklmnopqrstuvwxyz''"

definition asciiLowerChar :: "char \<Rightarrow> char" where
  "asciiLowerChar c = (case map_of (zip upperChars lowerChars) c of None \<Rightarrow> c | Some d \<Rightarrow> d)"

definition asciiUpperChar :: "char \<Rightarrow> char" where
  "asciiUpperChar c = (case map_of (zip lowerChars upperChars) c of None \<Rightarrow> c | Some d \<Rightarrow> d)"

definition asciiCase :: CaseMapping where
  "asciiCase = \<lparr>toLowerCase = map asciiLowerChar, toUpperCase = map asciiUpperChar\<rparr>"

definition includesStr :: "string \<Rightarrow> string \<Rightarrow> bool" where
  "includesStr s sub = sublist sub s"

definition isWhitespace :: "char \<Rightarrow> bool" where
  "isWhitespace c = (c \<in> set [CHR 0x20, CHR 0x09, CHR 0x0A, CHR 0x0B, CHR 0x0C, CHR 0x0D])"

definition trim :: "string \<Rightarrow> string" where
  "trim s = rev (dropWhile isWhitespace (rev (dropWhile isWhitespace s)))"

definition digitChar :: "nat \<Rightarrow> char" where
  "digitChar n = ''0123456789'' ! n"

text \<open>Decimal rendering of an integer, as a template literal prints it.\<close>

function showNat :: "nat \<Rightarrow> string" where
  "showNat n = (if n < 10 then [digitChar n] else showNat (n div 10) @ [digitChar (n mod 10)])"
  by pat_completeness auto
termination
  by (relation "measure (\<lambda>n. n)") auto

declare showNat.simps [simp del]

definition showInt :: "int \<Rightarrow> string" where
  "showInt i = (if i < 0 then CHR ''-'' # showNat (nat (- i)) else showNat (nat i))"

text \<open>
  \<open>parseInt\<close> of one character: a decimal digit gives its value, anything else (and the
  empty string \<open>charAt\<close> returns past the end) gives NaN, which is \<open>None\<close>.
\<close>

definition digitValue :: "char \<Rightarrow> int option" where
  "digitValue c = map_of (zip ''0123456789'' [0, 1, 2, 3, 4, 5, 6, 7, 8, 9]) c"

definition getHeadingLevel :: "string \<Rightarrow> int option" where
  "getHeadingLevel tag = (case drop 1 tag of [] \<Rightarrow> None | c # _ \<Rightarrow> digitValue c)"

text \<open>\<open>a >= b\<close> on numbers: false as soon as one side is NaN.\<close>

definition js_ge :: "int option \<Rightarrow> int option \<Rightarrow> bool" where
  "js_ge a b = (case a of None \<Rightarrow> False
                | Some x \<Rightarrow> (case b of None \<Rightarrow> False | Some y \<Rightarrow> x \<ge> y))"

subsection \<open>buildHeadingTree\<close>

text \<open>
  The loop state: the store of allocated nodes, the result array \<open>tree\<close> (addresses of the
  roots) and the stack of open ancestors, top first, each entry being the pair
  \<open>{node, level}\<close>.
\<close>

record BuildState =
  heap :: "HeadingNode list"
  tree :: "nat list"
  stack :: "(nat \<times> int option) list"

text \<open>The \<open>while\<close> loop: pop while the node on top has a level \<open>>=\<close> the incoming one.\<close>

fun popStack :: "HeadingNode list \<Rightarrow> int option \<Rightarrow> (nat \<times> int option) list
    \<Rightarrow> (nat \<times> int option) list" where
  "popStack h level [] = []"
| "popStack h level ((a, l) # st) =
     (if js_ge (getHeadingLevel (h_tag (h ! a))) level then popStack h level st
      else (a, l) # st)"

text \<open>
  One iteration of the \<open>for\<close> loop. A node is created with \<open>children: []\<close>, so the guard
  \<open>if (!parent.children)\<close> never fires.
\<close>

definition addHeading :: "BuildState \<Rightarrow> FlatHeading \<Rightarrow> BuildState" where
  "addHeading s item =
     (let level = getHeadingLevel (h_tag item);
          a = length (heap s);
          node = \<lparr>h_tag = h_tag item, h_text = h_text item, h_order = h_order item,
                  children = []\<rparr>;
          h1 = heap s @ [node];
          st = popStack h1 level (stack s)
      in case st of
           [] \<Rightarrow> \<lparr>heap = h1, tree = tree s @ [a], stack = [(a, level)]\<rparr>
         | (p, pl) # rest \<Rightarrow>
             \<lparr>heap = h1[p := (h1 ! p)\<lparr>children := children (h1 ! p) @ [a]\<rparr>],
              tree = tree s,
              stack = (a, level) # (p, pl) # rest\<rparr>)"

definition initialState :: BuildState where
  "initialState = \<lparr>heap = [], tree = [], stack = []\<rparr>"

definition buildState :: "FlatHeading list \<Rightarrow> BuildState" where
  "buildState flat = foldl addHeading initialState flat"

text \<open>
  Reading the nested value at an address. Nodes are allocated in input order and a node only
  receives children allocated after it, so every child address lies between the node's own
  address and the end of the store (lemma \<open>readNode_built\<close>); the guard states this and
  makes the recursion well-founded.
\<close>

function readNode :: "HeadingNode list \<Rightarrow> nat \<Rightarrow> HeadingTree" where
  "readNode h a =
     HNode (h_tag (h ! a)) (h_text (h ! a)) (h_order (h ! a))
       (map (readNode h) (filter (\<lambda>c. a < c \<and> c < length h) (children (h ! a))))"
  by pat_completeness auto
termination
  by (relation "measure (\<lambda>(h, a). length h - a)") auto

declare readNode.simps [simp del]

definition buildHeadingTree :: "FlatHeading list \<Rightarrow> HeadingTree list" where
  "buildHeadingTree flat = (let s = buildState flat in map (readNode (heap s)) (tree s))"

subsection \<open>countByLevel and checkKeywordPresence\<close>

definition countByLevel :: "FlatHeading list \<Rightarrow> (string \<Rightarrow> int option)" where
  "countByLevel flat =
     foldl (\<lambda>cs item. cs(h_tag item \<mapsto> (case cs (h_tag item) of None \<Rightarrow> 0 | Some c \<Rightarrow> c) + 1))
       Map.empty flat"

fun keywordLoop :: "CaseMapping \<Rightarrow> FlatHeading list \<Rightarrow> string \<Rightarrow> KeywordPresence \<Rightarrow> KeywordPresence" where
  "keywordLoop cm [] lower kp = kp"
| "keywordLoop cm (item # rest) lower kp =
     (let textLower = toLowerCase cm (h_text item) in
      if includesStr textLower lower then
        let kp1 = kp\<lparr>count := count kp + 1\<rparr>;
            kp2 = (if h_tag item = ''h1'' then kp1\<lparr>inH1 := True\<rparr> else kp1);
            kp3 = (if h_tag item = ''h2'' then kp2\<lparr>inH2 := inH2 kp2 @ [h_text item]\<rparr> else kp2)
        in keywordLoop cm rest lower kp3
      else keywordLoop cm rest lower kp)"

definition checkKeywordPresence :: "CaseMapping \<Rightarrow> FlatHeading list \<Rightarrow> string \<Rightarrow> KeywordPresence" where
  "checkKeywordPresence cm flat keyword =
     keywordLoop cm flat (toLowerCase cm keyword) \<lparr>inH1 = False, inH2 = [], count = 0\<rparr>"

subsection \<open>identifyIssues\<close>

definition missingH1Issue :: SeoIssue where
  "missingH1Issue =
     \<lparr>type = ''missing_h1'', severity = Critical, detail = ''Page is missing an H1 heading''\<rparr>"

definition multipleH1Issue :: "int \<Rightarrow> SeoIssue" where
  "multipleH1Issue h1 =
     \<lparr>type = ''multiple_h1'', severity = High,
      detail = ''Page has '' @ showInt h1 @ '' H1 headings (recommended: '' @ showInt maxH1Count
               @ '')''\<rparr>"

definition emptyHeadingIssue :: "CaseMapping \<Rightarrow> FlatHeading \<Rightarrow> SeoIssue" where
  "emptyHeadingIssue cm item =
     \<lparr>type = ''empty_heading'', severity = Medium,
      detail = ''Empty '' @ toUpperCase cm (h_tag item) @ '' heading at position ''
               @ showInt (h_order item)\<rparr>"

definition skippedLevelIssue :: "int \<Rightarrow> int \<Rightarrow> SeoIssue" where
  "skippedLevelIssue prev cur =
     (let skippedStart = prev + 1;
          skippedEnd = cur - 1;
          skipped = (if skippedStart = skippedEnd then ''H'' @ showInt skippedStart
                     else ''H'' @ showInt skippedStart @ ''-H'' @ showInt skippedEnd)
      in \<lparr>type = ''skipped_level'', severity = Medium,
          detail = ''Heading level skipped: '' @ skipped @ '' (found H'' @ showInt prev
                   @ '' followed by H'' @ showInt cur @ '')''\<rparr>)"

definition noH1FirstIssue :: "CaseMapping \<Rightarrow> FlatHeading \<Rightarrow> SeoIssue" where
  "noH1FirstIssue cm item =
     \<lparr>type = ''no_h1_first'', severity = Medium,
      detail = ''First heading is '' @ toUpperCase cm (h_tag item) @ '', expected H1''\<rparr>"

definition keywordMissingIssue :: "string \<Rightarrow> SeoIssue" where
  "keywordMissingIssue kw =
     \<lparr>type = ''keyword_missing_h1'', severity = High,
      detail = ''Target keyword '' @ [CHR 0x22] @ kw @ [CHR 0x22] @ '' not found in H1''\<rparr>"

text \<open>The loop over the flat list that pushes one \<open>empty_heading\<close> issue per blank text.\<close>

fun emptyLoop :: "CaseMapping \<Rightarrow> FlatHeading list \<Rightarrow> SeoIssue list \<Rightarrow> SeoIssue list" where
  "emptyLoop cm [] acc = acc"
| "emptyLoop cm (item # rest) acc =
     emptyLoop cm rest (if trim (h_text item) = [] then acc @ [emptyHeadingIssue cm item] else acc)"

text \<open>
  \<open>new Set(...)\<close> keeps the distinct levels in order of first insertion (NaN equals NaN
  there). \<open>sort((a, b) => a - b)\<close> is a stable sort under the comparator, a NaN result
  counting as 0; when a NaN level stands beside two different numeric levels the
  comparator is inconsistent and the language leaves the order open, so the statements
  about skipped levels below are made for parsed levels only.
\<close>

definition setAdd :: "'a list \<Rightarrow> 'a \<Rightarrow> 'a list" where
  "setAdd s x = (if x \<in> set s then s else s @ [x])"

definition compareLevels :: "int option \<Rightarrow> int option \<Rightarrow> int" where
  "compareLevels a b = (case a of None \<Rightarrow> 0
                        | Some x \<Rightarrow> (case b of None \<Rightarrow> 0 | Some y \<Rightarrow> x - y))"

fun insertLevel :: "int option \<Rightarrow> int option list \<Rightarrow> int option list" where
  "insertLevel x [] = [x]"
| "insertLevel x (y # ys) =
     (if compareLevels x y \<le> 0 then x # y # ys else y # insertLevel x ys)"

definition sortLevels :: "int option list \<Rightarrow> int option list" where
  "sortLevels ls = foldr insertLevel ls []"

text \<open>The body of the loop over adjacent sorted levels; a NaN difference is not \<open>> 1\<close>.\<close>

definition skipCheck :: "int option \<Rightarrow> int option \<Rightarrow> SeoIssue list \<Rightarrow> SeoIssue list" where
  "skipCheck prev cur acc =
     (case prev of None \<Rightarrow> acc
      | Some p \<Rightarrow> (case cur of None \<Rightarrow> acc
                   | Some c \<Rightarrow> if c - p > 1 then acc @ [skippedLevelIssue p c] else acc))"

function skipLoop :: "int option list \<Rightarrow> nat \<Rightarrow> SeoIssue list \<Rightarrow> SeoIssue list" where
  "skipLoop srt i acc =
     (if i < length srt
      then skipLoop srt (i + 1) (skipCheck (srt ! (i - 1)) (srt ! i) acc)
      else acc)"
  by pat_completeness auto
termination
  by (relation "measure (\<lambda>(srt, i, acc). length srt - i)") auto

declare skipLoop.simps [simp del]

definition identifyIssues :: "CaseMapping \<Rightarrow> FlatHeading list \<Rightarrow> (string \<Rightarrow> int option) \<Rightarrow> SeoIssue list" where
  "identifyIssues cm flat cnts =
     (let issues0 = [];
          h1 = (case cnts ''h1'' of None \<Rightarrow> 0 | Some c \<Rightarrow> c);
          issues1 = (if h1 = 0 then issues0 @ [missingH1Issue]
                     else if h1 > maxH1Count then issues0 @ [multipleH1Issue h1]
                     else issues0);
          issues2 = emptyLoop cm flat issues1;
          usedLevels = foldl setAdd [] (map (\<lambda>h. getHeadingLevel (h_tag h)) flat);
          issues3 = (if length usedLevels > 1 then skipLoop (sortLevels usedLevels) 1 issues2
                     else issues2);
          issues4 = (case flat of
                       [] \<Rightarrow> issues3
                     | first # _ \<Rightarrow>
                         if getHeadingLevel (h_tag first) \<noteq> Some 1
                         then issues3 @ [noH1FirstIssue cm first] else issues3)
      in issues4)"

subsection \<open>analyzeHeadings\<close>

text \<open>
  The document scan hands over, for every heading element in document order, its lower-cased
  tag name and its whitespace-normalised text; the loop numbers them from 1.
\<close>

fun scanLoop :: "(string \<times> string) list \<Rightarrow> int \<Rightarrow> FlatHeading list \<Rightarrow> FlatHeading list" where
  "scanLoop [] ord flat = flat"
| "scanLoop ((tg, tx) # els) ord flat =
     scanLoop els (ord + 1) (flat @ [\<lparr>h_tag = tg, h_text = tx, h_order = ord + 1\<rparr>])"

text \<open>
  The part of \<open>analyzeHeadings\<close> after the scan. \<open>targetKeyword\<close> is optional; the tests
  \<open>targetKeyword ? ... : undefined\<close> and \<open>targetKeyword && ...\<close> are false for
  \<open>undefined\<close> and for the empty string.
\<close>

definition analyzeFlatList :: "CaseMapping \<Rightarrow> FlatHeading list \<Rightarrow> string option \<Rightarrow> HeadingAnalysis" where
  "analyzeFlatList cm flat targetKeyword =
     (let cnts = countByLevel flat;
          tr = buildHeadingTree flat;
          issues0 = identifyIssues cm flat cnts;
          kp = (case targetKeyword of
                  None \<Rightarrow> None
                | Some kw \<Rightarrow> if kw \<noteq> [] then Some (checkKeywordPresence cm flat kw) else None);
          issues1 = (case targetKeyword of
                       None \<Rightarrow> issues0
                     | Some kw \<Rightarrow>
                         (case kp of
                            None \<Rightarrow> issues0
                          | Some p \<Rightarrow> if kw \<noteq> [] \<and> \<not> inH1 p
                                      then issues0 @ [keywordMissingIssue kw] else issues0))
      in \<lparr>headingTree = tr, flatList = flat, counts = cnts, keywordPresence = kp,
          issues = issues1\<rparr>)"

definition analyzeHeadings :: "CaseMapping \<Rightarrow> (string \<times> string) list \<Rightarrow> string option \<Rightarrow> HeadingAnalysis" where
  "analyzeHeadings cm els targetKeyword = analyzeFlatList cm (scanLoop els 0 []) targetKeyword"

subsection \<open>The issue list in the words of the specification\<close>

text \<open>
  The detector's output as the specification describes it, part by part; \<open>levelNum\<close>
  reads the level of a heading whose tag carries a digit, and \<open>kwMatch\<close> is the
  case-insensitive substring match of the keyword against a heading's text.
  \<open>adjacentSkips\<close> walks adjacent pairs the way the index loop does.
\<close>

fun adjacentSkips :: "int option list \<Rightarrow> SeoIssue list" where
  "adjacentSkips (p # c # rest) = skipCheck p c [] @ adjacentSkips (c # rest)"
| "adjacentSkips [p] = []"
| "adjacentSkips [] = []"

definition levelNum :: "FlatHeading \<Rightarrow> int" where
  "levelNum h = the (getHeadingLevel (h_tag h))"

definition spec_h1_part :: "(string \<Rightarrow> int option) \<Rightarrow> SeoIssue list" where
  "spec_h1_part cnts =
     (let h1 = (case cnts ''h1'' of None \<Rightarrow> 0 | Some c \<Rightarrow> c) in
      if h1 = 0 then [missingH1Issue]
      else if h1 > maxH1Count then [multipleH1Issue h1] else [])"

definition spec_empty_part :: "CaseMapping \<Rightarrow> FlatHeading list \<Rightarrow> SeoIssue list" where
  "spec_empty_part cm flat = map (emptyHeadingIssue cm) (filter (\<lambda>h. trim (h_text h) = []) flat)"

definition spec_skipped_part :: "FlatHeading list \<Rightarrow> SeoIssue list" where
  "spec_skipped_part flat =
     (let ls = sorted_list_of_set (set (map levelNum flat)) in
      map (\<lambda>(p, c). skippedLevelIssue p c) (filter (\<lambda>(p, c). c - p > 1) (zip ls (tl ls))))"

definition spec_first_part :: "CaseMapping \<Rightarrow> FlatHeading list \<Rightarrow> SeoIssue list" where
  "spec_first_part cm flat =
     (case flat of [] \<Rightarrow> []
      | first # _ \<Rightarrow> if getHeadingLevel (h_tag first) \<noteq> Some 1 then [noH1FirstIssue cm first] else [])"

definition usedLevelsOf :: "FlatHeading list \<Rightarrow> int option list" where
  "usedLevelsOf flat = foldl setAdd [] (map (\<lambda>h. getHeadingLevel (h_tag h)) flat)"

definition kwMatch :: "CaseMapping \<Rightarrow> string \<Rightarrow> FlatHeading \<Rightarrow> bool" where
  "kwMatch cm kw h = sublist (toLowerCase cm kw) (toLowerCase cm (h_text h))"

definition spec_keyword_part :: "CaseMapping \<Rightarrow> FlatHeading list \<Rightarrow> string option \<Rightarrow> SeoIssue list" where
  "spec_keyword_part cm flat targetKeyword =
     (case targetKeyword of None \<Rightarrow> []
      | Some kw \<Rightarrow> if kw \<noteq> [] \<and> \<not> (\<exists>h\<in>set flat. h_tag h = ''h1'' \<and> kwMatch cm kw h)
                   then [keywordMissingIssue kw] else [])"

definition flatSeo :: "FlatHeading list" where
  "flatSeo = [\<lparr>h_tag = ''h1'', h_text = ''SEO Guide'', h_order = 1\<rparr>,
              \<lparr>h_tag = ''h2'', h_text = ''Seo tips'', h_order = 2\<rparr>,
              \<lparr>h_tag = ''h2'', h_text = ''Other'', h_order = 3\<rparr>,
              \<lparr>h_tag = ''h3'', h_text = ''more seo'', h_order = 4\<rparr>]"

definition flat124 :: "FlatHeading list" where
  "flat124 = [\<lparr>h_tag = ''h1'', h_text = ''Guide'', h_order = 1\<rparr>,
              \<lparr>h_tag = ''h2'', h_text = [], h_order = 2\<rparr>,
              \<lparr>h_tag = ''h4'', h_text = ''Details'', h_order = 3\<rparr>]"

subsection \<open>Observations on the built tree\<close>

text \<open>
  \<open>childrenAscending\<close> and \<open>levelsIncrease\<close> are the two properties of a returned tree;
  \<open>js_lt\<close> is \<open><\<close> on parsed levels. On the store, \<open>parentOf\<close> finds the node whose
  \<open>children\<close> holds an address and \<open>depthOf\<close> counts the ancestors. \<open>stackAt\<close> and
  \<open>parentAt\<close> replay the stack discipline on the flat list alone: the stack after \<open>n\<close>
  headings, and the node the \<open>c\<close>-th heading is attached to; \<open>treeInv\<close> is the loop
  invariant that ties the store to them.
\<close>

definition levelAt :: "FlatHeading list \<Rightarrow> nat \<Rightarrow> int option" where
  "levelAt flat a = getHeadingLevel (h_tag (flat ! a))"

definition popLevels :: "FlatHeading list \<Rightarrow> int option \<Rightarrow> (nat \<times> int option) list
    \<Rightarrow> (nat \<times> int option) list" where
  "popLevels flat level st = dropWhile (\<lambda>(a, l). js_ge (levelAt flat a) level) st"

fun stackAt :: "FlatHeading list \<Rightarrow> nat \<Rightarrow> (nat \<times> int option) list" where
  "stackAt flat 0 = []"
| "stackAt flat (Suc n) =
     (n, levelAt flat n) # popLevels flat (levelAt flat n) (stackAt flat n)"

definition parentAt :: "FlatHeading list \<Rightarrow> nat \<Rightarrow> nat option" where
  "parentAt flat c =
     (case popLevels flat (levelAt flat c) (stackAt flat c) of
        [] \<Rightarrow> None | (p, l) # rest \<Rightarrow> Some p)"

definition treeInv :: "FlatHeading list \<Rightarrow> nat \<Rightarrow> BuildState \<Rightarrow> bool" where
  "treeInv flat n s =
     (length (heap s) = n
      \<and> (\<forall>a<n. h_tag (heap s ! a) = h_tag (flat ! a) \<and> h_text (heap s ! a) = h_text (flat ! a)
                \<and> h_order (heap s ! a) = h_order (flat ! a))
      \<and> (\<forall>a<n. children (heap s ! a) = filter (\<lambda>c. parentAt flat c = Some a) [0..<n])
      \<and> tree s = filter (\<lambda>c. parentAt flat c = None) [0..<n]
      \<and> stack s = stackAt flat n)"

definition js_lt :: "int option \<Rightarrow> int option \<Rightarrow> bool" where
  "js_lt a b = (case a of None \<Rightarrow> False
                | Some x \<Rightarrow> (case b of None \<Rightarrow> False | Some y \<Rightarrow> x < y))"

fun childrenAscending :: "HeadingTree \<Rightarrow> bool" where
  "childrenAscending (HNode tg tx ord ts) =
     (sorted_wrt (<) (map t_order ts) \<and> (\<forall>t\<in>set ts. childrenAscending t))"

fun levelsIncrease :: "HeadingTree \<Rightarrow> bool" where
  "levelsIncrease (HNode tg tx ord ts) =
     ((\<forall>t\<in>set ts. js_lt (getHeadingLevel tg) (getHeadingLevel (t_tag t)))
      \<and> (\<forall>t\<in>set ts. levelsIncrease t))"

definition parentOf :: "BuildState \<Rightarrow> nat \<Rightarrow> nat option" where
  "parentOf s c = find (\<lambda>p. c \<in> set (children (heap s ! p))) [0..<length (heap s)]"

function depthOf :: "BuildState \<Rightarrow> nat \<Rightarrow> nat" where
  "depthOf s c =
     (case parentOf s c of None \<Rightarrow> 0 | Some p \<Rightarrow> if p < c then Suc (depthOf s p) else 0)"
  by pat_completeness auto
termination
  by (relation "measure (\<lambda>(s, c). c)") auto

declare depthOf.simps [simp del]

definition flatDoc :: "FlatHeading list" where
  "flatDoc = [\<lparr>h_tag = ''h1'', h_text = ''Title'', h_order = 1\<rparr>,
              \<lparr>h_tag = ''h2'', h_text = ''Sec A'', h_order = 2\<rparr>,
              \<lparr>h_tag = ''h3'', h_text = ''Sub'', h_order = 3\<rparr>,
              \<lparr>h_tag = ''h2'', h_text = ''Sec B'', h_order = 4\<rparr>]"

definition flatTwins :: "FlatHeading list" where
  "flatTwins = [\<lparr>h_tag = ''h1'', h_text = ''A'', h_order = 1\<rparr>,
                \<lparr>h_tag = ''h2'', h_text = ''B'', h_order = 2\<rparr>,
                \<lparr>h_tag = ''h2'', h_text = ''C'', h_order = 3\<rparr>,
                \<lparr>h_tag = ''h1'', h_text = ''D'', h_order = 4\<rparr>]"

section \<open>Properties of the scorer\<close>

lemma clamp100_range: "0 \<le> clamp100 s \<and> clamp100 s \<le> 100"
  by (simp add: clamp100_def)

lemma page1_scores:
  "scoreTitleCategory page1 = 100" "scoreMetaCategory page1 = 100"
  "scoreHeadingsCategory page1 = 90" "scoreImagesCategory page1 = 100"
  "scoreLinksCategory page1 = 100" "scoreCanonicalCategory page1 = 30"
  "scoreOpenGraphCategory page1 = 0" "scoreRobotsCategory page1 = 100"
  "scoreContentCategory page1 = 50"
  by (simp_all add: page1_def scoreTitleCategory_def scoreMetaCategory_def
      scoreHeadingsCategory_def scoreImagesCategory_def scoreLinksCategory_def
      scoreCanonicalCategory_def scoreOpenGraphCategory_def scoreRobotsCategory_def
      scoreContentCategory_def truthy_def clamp100_def seo_rules Let_def)

lemma overall_unfold:
  "overall (calculateSeoScore a) =
     max 0 (min 100 (round
       ((real_of_int (scoreTitleCategory a * W_title) +
         real_of_int (scoreMetaCategory a * W_metaDescription) +
         real_of_int (scoreHeadingsCategory a * W_headings) +
         real_of_int (scoreImagesCategory a * W_images) +
         real_of_int (scoreLinksCategory a * W_links) +
         real_of_int (round (technicalScore a) * technicalWeight)) / 100)))"
  by (simp add: calculateSeoScore_def categories_def setWeighted_def Let_def
      technicalWeight_def score_weights add_divide_distrib)

text \<open>
  C1 (as stated): the overall score is the rounded, clamped blend of the six category scores
  in which the technical score is the weighted average of its four parts. On \<open>page1\<close> the
  code returns 81 where this formula gives 82: the code blends the technical average after
  rounding it to an integer (51 instead of 51.43).
\<close>

theorem overall_unrounded_technical_counterexample:
  "overall (calculateSeoScore page1) = 81 \<and> spec_blend page1 (spec_technical page1) = 82
   \<and> overall (calculateSeoScore page1) \<noteq> spec_blend page1 (spec_technical page1)"
  by (simp add: overall_unfold spec_blend_def spec_technical_def technicalScore_def
      technicalWeight_def page1_scores score_weights round_def)

text \<open>
  C1 (amended): for every page analysis, the overall score is the rounded, clamped blend of
  the six category scores with their weights, where the technical category score is the
  weighted average of the canonical, Open Graph, robots and content scores rounded to the
  nearest integer, and the technical weight is the sum of the four sub-weights. The rounded
  technical score is also the one reported in the breakdown.
\<close>

theorem overall_weighted_blend:
  "overall (calculateSeoScore a) = spec_blend a (real_of_int (round (spec_technical a)))
   \<and> b_technical (breakdown (calculateSeoScore a)) = round (spec_technical a)"
proof -
  have t: "technicalScore a = spec_technical a"
    by (simp add: technicalScore_def spec_technical_def technicalWeight_def)
  have b: "b_technical (breakdown (calculateSeoScore a)) = round (technicalScore a)"
    by (simp add: calculateSeoScore_def categories_def setWeighted_def scoreOf_def Let_def)
  have o: "overall (calculateSeoScore a) = spec_blend a (real_of_int (round (technicalScore a)))"
    by (simp add: overall_unfold spec_blend_def technicalWeight_def score_weights)
  from t b o show ?thesis by simp
qed

text \<open>
  C6: each of the nine per-category scoring functions returns a value within [0,100],
  whatever the counts, lengths and numbers of issues of the page analysis.
\<close>

theorem category_scores_in_range:
  "0 \<le> scoreTitleCategory a \<and> scoreTitleCategory a \<le> 100 \<and>
   0 \<le> scoreMetaCategory a \<and> scoreMetaCategory a \<le> 100 \<and>
   0 \<le> scoreHeadingsCategory a \<and> scoreHeadingsCategory a \<le> 100 \<and>
   0 \<le> scoreImagesCategory a \<and> scoreImagesCategory a \<le> 100 \<and>
   0 \<le> scoreLinksCategory a \<and> scoreLinksCategory a \<le> 100 \<and>
   0 \<le> scoreCanonicalCategory a \<and> scoreCanonicalCategory a \<le> 100 \<and>
   0 \<le> scoreOpenGraphCategory a \<and> scoreOpenGraphCategory a \<le> 100 \<and>
   0 \<le> scoreRobotsCategory a \<and> scoreRobotsCategory a \<le> 100 \<and>
   0 \<le> scoreContentCategory a \<and> scoreContentCategory a \<le> 100"
proof -
  have "0 \<le> scoreTitleCategory a \<and> scoreTitleCategory a \<le> 100"
    by (simp add: scoreTitleCategory_def Let_def clamp100_range)
  moreover have "0 \<le> scoreMetaCategory a \<and> scoreMetaCategory a \<le> 100"
    by (simp add: scoreMetaCategory_def Let_def clamp100_range)
  moreover have "0 \<le> scoreHeadingsCategory a \<and> scoreHeadingsCategory a \<le> 100"
    by (simp add: scoreHeadingsCategory_def Let_def clamp100_range)
  moreover have "0 \<le> scoreImagesCategory a \<and> scoreImagesCategory a \<le> 100"
    by (simp add: scoreImagesCategory_def Let_def clamp100_range)
  moreover have "0 \<le> scoreLinksCategory a \<and> scoreLinksCategory a \<le> 100"
    by (simp add: scoreLinksCategory_def Let_def clamp100_range)
  moreover have "0 \<le> scoreCanonicalCategory a \<and> scoreCanonicalCategory a \<le> 100"
    by (simp add: scoreCanonicalCategory_def Let_def clamp100_range)
  moreover have "0 \<le> scoreOpenGraphCategory a \<and> scoreOpenGraphCategory a \<le> 100"
    by (simp add: scoreOpenGraphCategory_def Let_def clamp100_range)
  moreover have "0 \<le> scoreRobotsCategory a \<and> scoreRobotsCategory a \<le> 100"
    by (simp add: scoreRobotsCategory_def)
  moreover have "0 \<le> scoreContentCategory a \<and> scoreContentCategory a \<le> 100"
    by (simp add: scoreContentCategory_def Let_def clamp100_range split: option.split)
  ultimately show ?thesis by blast
qed

text \<open>
  C9: the links score starts at 100, loses 20 when there is no internal link, 15 when
  internal plus external links exceed the per-page maximum of 150, and 30 when there is no
  link at all, and is then clamped to [0,100]; a page with no link of either kind scores 50.
\<close>

theorem links_score_formula:
  "scoreLinksCategory a =
     max 0 (min 100
       (100 - (if internal (links a) = 0 then 20 else 0)
            - (if internal (links a) + external (links a) > 150 then 15 else 0)
            - (if internal (links a) + external (links a) = 0 then 30 else 0)))
   \<and> (internal (links a) = 0 \<and> external (links a) = 0 \<longrightarrow> scoreLinksCategory a = 50)"
  by (simp add: scoreLinksCategory_def Let_def clamp100_def maxPerPage_def)

theorem links_score_formula_witness:
  "internal (links page0) = 0 \<and> external (links page0) = 0 \<and> scoreLinksCategory page0 = 50"
  using links_score_formula [of page0] by (simp add: page0_def)

section \<open>Properties of the issue detector\<close>

lemma skipCheck_acc: "skipCheck p c acc = acc @ skipCheck p c []"
  by (simp add: skipCheck_def split: option.split)

lemma emptyLoop_eq: "emptyLoop cm flat acc = acc @ spec_empty_part cm flat"
  by (induction flat arbitrary: acc) (simp_all add: spec_empty_part_def)

lemma skipLoop_eq:
  "skipLoop srt (Suc j) acc = acc @ adjacentSkips (drop j srt)"
proof (induction "length srt - j" arbitrary: j acc)
  case 0
  then have "drop j srt = []" by simp
  moreover have "skipLoop srt (Suc j) acc = acc"
    using 0 by (subst skipLoop.simps) simp
  ultimately show ?case by simp
next
  case (Suc n)
  then have j: "j < length srt" by simp
  show ?case
  proof (cases "Suc j < length srt")
    case True
    have d2: "drop (Suc j) srt = srt ! Suc j # drop (Suc (Suc j)) srt"
      using True by (rule Cons_nth_drop_Suc [symmetric])
    have d: "drop j srt = srt ! j # srt ! Suc j # drop (Suc (Suc j)) srt"
      using Cons_nth_drop_Suc [OF j, symmetric] d2 by simp
    have n: "n = length srt - Suc j" using Suc(2) by simp
    have "skipLoop srt (Suc j) acc = skipLoop srt (Suc (Suc j)) (skipCheck (srt ! j) (srt ! Suc j) acc)"
      using True by (subst skipLoop.simps) simp
    also have "\<dots> = skipCheck (srt ! j) (srt ! Suc j) acc @ adjacentSkips (drop (Suc j) srt)"
      using Suc(1) [OF n] .
    also have "\<dots> = acc @ skipCheck (srt ! j) (srt ! Suc j) [] @ adjacentSkips (drop (Suc j) srt)"
      by (subst skipCheck_acc) simp
    also have "\<dots> = acc @ adjacentSkips (drop j srt)"
      by (simp add: d d2)
    finally show ?thesis .
  next
    case False
    then have "drop (Suc j) srt = []" by simp
    with Cons_nth_drop_Suc [OF j, symmetric] have "drop j srt = [srt ! j]" by simp
    moreover have "skipLoop srt (Suc j) acc = acc"
      using False by (subst skipLoop.simps) simp
    ultimately show ?thesis by simp
  qed
qed

lemma length_sortLevels: "length (sortLevels ls) = length ls"
proof -
  have "length (insertLevel x ys) = Suc (length ys)" for x ys
    by (induction ys) simp_all
  then show ?thesis by (induction ls) (simp_all add: sortLevels_def)
qed

lemma adjacentSkips_short: "length ls \<le> 1 \<Longrightarrow> adjacentSkips ls = []"
  by (cases ls rule: adjacentSkips.cases) simp_all

lemma skipped_step:
  "(if length u > 1 then skipLoop (sortLevels u) 1 acc else acc)
     = acc @ adjacentSkips (sortLevels u)"
proof (cases "length u > 1")
  case True
  then show ?thesis using skipLoop_eq [of "sortLevels u" 0 acc] by simp
next
  case False
  then have "adjacentSkips (sortLevels u) = []"
    by (intro adjacentSkips_short) (simp add: length_sortLevels)
  with False show ?thesis by simp
qed

lemma identifyIssues_parts:
  "identifyIssues cm flat cnts =
     spec_h1_part cnts @ spec_empty_part cm flat
     @ adjacentSkips (sortLevels (usedLevelsOf flat))
     @ spec_first_part cm flat"
proof -
  have "identifyIssues cm flat cnts =
      (emptyLoop cm flat (spec_h1_part cnts) @ adjacentSkips (sortLevels (usedLevelsOf flat)))
      @ spec_first_part cm flat"
    unfolding identifyIssues_def Let_def skipped_step usedLevelsOf_def [symmetric]
    by (simp add: spec_h1_part_def spec_first_part_def Let_def split: list.split)
  then show ?thesis by (simp add: emptyLoop_eq)
qed

lemma insertLevel_Some: "insertLevel (Some x) (map Some ys) = map Some (insort x ys)"
  by (induction ys) (simp_all add: compareLevels_def)

lemma sortLevels_Some: "sortLevels (map Some ls) = map Some (sort ls)"
  by (induction ls) (simp_all add: sortLevels_def sort_key_def insertLevel_Some)

lemma setAdd_fold_set: "set (foldl setAdd acc xs) = set acc \<union> set xs"
  by (induction xs arbitrary: acc) (auto simp: setAdd_def)

lemma setAdd_fold_distinct: "distinct acc \<Longrightarrow> distinct (foldl setAdd acc xs)"
  by (induction xs arbitrary: acc) (auto simp: setAdd_def)

lemma adjacentSkips_Some:
  "adjacentSkips (map Some ls) =
     map (\<lambda>(p, c). skippedLevelIssue p c) (filter (\<lambda>(p, c). c - p > 1) (zip ls (tl ls)))"
proof (induction ls rule: induct_list012)
  case (3 x y zs)
  then show ?case by (simp add: skipCheck_def)
qed simp_all

lemma all_Some_map: "\<forall>l\<in>set u. l \<noteq> None \<Longrightarrow> u = map Some (map the u)"
  by (induction u) auto

lemma sort_distinct: "distinct (xs :: int list) \<Longrightarrow> sort xs = sorted_list_of_set (set xs)"
  using sorted_list_of_set_sort_remdups [of xs] by (simp only: distinct_remdups_id)

lemma usedLevels_numeric:
  assumes "\<forall>h\<in>set flat. getHeadingLevel (h_tag h) \<noteq> None"
  shows "sortLevels (usedLevelsOf flat) = map Some (sorted_list_of_set (set (map levelNum flat)))"
proof -
  let ?u = "usedLevelsOf flat"
  have s: "set ?u = (\<lambda>h. getHeadingLevel (h_tag h)) ` set flat"
    by (simp add: usedLevelsOf_def setAdd_fold_set)
  have d: "distinct ?u" by (simp add: usedLevelsOf_def setAdd_fold_distinct)
  from s assms have some: "\<forall>l\<in>set ?u. l \<noteq> None" by auto
  then have u: "?u = map Some (map the ?u)" by (rule all_Some_map)
  have inj: "inj_on the (set ?u)"
  proof (rule inj_onI)
    fix x y assume "x \<in> set ?u" "y \<in> set ?u" "the x = the y"
    with some show "x = y" by (cases x; cases y) auto
  qed
  have d': "distinct (map the ?u)" using d inj by (simp add: distinct_map)
  have s': "set (map the ?u) = set (map levelNum flat)"
    using s by (auto simp: levelNum_def image_image)
  have "sort (map the ?u) = sorted_list_of_set (set (map the ?u))"
    using d' by (rule sort_distinct)
  then have "sort (map the ?u) = sorted_list_of_set (set (map levelNum flat))"
    using s' by simp
  moreover have "sortLevels ?u = map Some (sort (map the ?u))"
    by (subst u) (rule sortLevels_Some)
  ultimately show ?thesis by simp
qed

lemma identifyIssues_numeric:
  assumes "\<forall>h\<in>set flat. getHeadingLevel (h_tag h) \<noteq> None"
  shows "identifyIssues cm flat cnts =
     spec_h1_part cnts @ spec_empty_part cm flat @ spec_skipped_part flat @ spec_first_part cm flat"
  by (simp add: identifyIssues_parts usedLevels_numeric [OF assms] adjacentSkips_Some
      spec_skipped_part_def)

lemma type_h1_part: "i \<in> set (spec_h1_part cnts) \<Longrightarrow> type i = ''missing_h1'' \<or> type i = ''multiple_h1''"
  by (auto simp: spec_h1_part_def Let_def missingH1Issue_def multipleH1Issue_def split: if_splits)

lemma type_empty_part: "i \<in> set (spec_empty_part cm flat) \<Longrightarrow> type i = ''empty_heading''"
  by (auto simp: spec_empty_part_def emptyHeadingIssue_def)

lemma type_skippedLevelIssue: "type (skippedLevelIssue p c) = ''skipped_level''"
  by (simp add: skippedLevelIssue_def Let_def)

lemma type_adjacentSkips: "i \<in> set (adjacentSkips ls) \<Longrightarrow> type i = ''skipped_level''"
  by (induction ls rule: adjacentSkips.induct)
     (auto simp: skipCheck_def type_skippedLevelIssue split: option.splits if_splits)

lemma type_first_part: "i \<in> set (spec_first_part cm flat) \<Longrightarrow> type i = ''no_h1_first''"
  by (auto simp: spec_first_part_def noH1FirstIssue_def split: list.splits if_splits)

lemma filter_none: "(\<And>i. i \<in> set xs \<Longrightarrow> \<not> P i) \<Longrightarrow> filter P xs = []"
  by (induction xs) auto

lemma filter_all: "(\<And>i. i \<in> set xs \<Longrightarrow> P i) \<Longrightarrow> filter P xs = xs"
  by (induction xs) auto

text \<open>
  C7: when every tag carries a digit, the \<open>skipped_level\<close> issues are exactly those of
  the adjacent pairs of the ascending list of distinct levels whose gap exceeds 1, in that
  order; each has severity medium and a detail naming the skipped range as \<open>Hk\<close> for one
  level or \<open>Hi-Hj\<close> for several, and the two levels around the gap. Levels {1,2,4} give
  exactly one such issue, naming H3.
\<close>

theorem skipped_levels_detected:
  assumes "\<forall>h\<in>set flat. getHeadingLevel (h_tag h) \<noteq> None"
  shows "filter (\<lambda>i. type i = ''skipped_level'') (identifyIssues cm flat cnts) = spec_skipped_part flat
    \<and> (\<forall>p c. type (skippedLevelIssue p c) = ''skipped_level''
          \<and> severity (skippedLevelIssue p c) = Medium
          \<and> detail (skippedLevelIssue p c) =
              ''Heading level skipped: ''
              @ (if c - p = 2 then ''H'' @ showInt (p + 1)
                 else ''H'' @ showInt (p + 1) @ ''-H'' @ showInt (c - 1))
              @ '' (found H'' @ showInt p @ '' followed by H'' @ showInt c @ '')'')
    \<and> (set (map levelNum flat) = {1, 2, 4} \<longrightarrow>
         filter (\<lambda>i. type i = ''skipped_level'') (identifyIssues cm flat cnts)
           = [\<lparr>type = ''skipped_level'', severity = Medium,
               detail = ''Heading level skipped: H3 (found H2 followed by H4)''\<rparr>])"
proof -
  have f1: "filter (\<lambda>i. type i = ''skipped_level'') (spec_h1_part cnts) = []"
    by (rule filter_none) (auto dest: type_h1_part)
  have f2: "filter (\<lambda>i. type i = ''skipped_level'') (spec_empty_part cm flat) = []"
    by (rule filter_none) (auto dest: type_empty_part)
  have f3: "filter (\<lambda>i. type i = ''skipped_level'') (spec_skipped_part flat) = spec_skipped_part flat"
    by (rule filter_all) (auto simp: spec_skipped_part_def type_skippedLevelIssue)
  have f4: "filter (\<lambda>i. type i = ''skipped_level'') (spec_first_part cm flat) = []"
    by (rule filter_none) (auto dest: type_first_part)
  have a: "filter (\<lambda>i. type i = ''skipped_level'') (identifyIssues cm flat cnts) = spec_skipped_part flat"
    by (simp add: identifyIssues_numeric [OF assms] f1 f2 f3 f4)
  have b: "type (skippedLevelIssue p c) = ''skipped_level''
          \<and> severity (skippedLevelIssue p c) = Medium
          \<and> detail (skippedLevelIssue p c) =
              ''Heading level skipped: ''
              @ (if c - p = 2 then ''H'' @ showInt (p + 1)
                 else ''H'' @ showInt (p + 1) @ ''-H'' @ showInt (c - 1))
              @ '' (found H'' @ showInt p @ '' followed by H'' @ showInt c @ '')''" for p c
  proof -
    have "(p + 1 = c - 1) = (c - p = 2)" by arith
    then show ?thesis by (simp add: skippedLevelIssue_def Let_def)
  qed
  have c: "spec_skipped_part flat = [\<lparr>type = ''skipped_level'', severity = Medium,
               detail = ''Heading level skipped: H3 (found H2 followed by H4)''\<rparr>]"
    if "set (map levelNum flat) = {1, 2, 4}"
  proof -
    have "sorted_list_of_set (set (map levelNum flat)) = [1, 2, 4]"
      unfolding that by simp
    then show ?thesis
      by (simp add: spec_skipped_part_def skippedLevelIssue_def Let_def showInt_def
          showNat.simps digitChar_def)
  qed
  from a b c show ?thesis by simp
qed

lemma flat124_numeric: "\<forall>h\<in>set flat124. getHeadingLevel (h_tag h) \<noteq> None"
  by (simp add: flat124_def getHeadingLevel_def digitValue_def)

lemma flat124_parsed: "map (\<lambda>h. getHeadingLevel (h_tag h)) flat124 = [Some 1, Some 2, Some 4]"
  by (simp add: flat124_def getHeadingLevel_def digitValue_def)

lemma flat124_levels: "map levelNum flat124 = [1, 2, 4]"
  by (simp add: flat124_def levelNum_def getHeadingLevel_def digitValue_def)

theorem skipped_levels_detected_witness:
  "map (\<lambda>h. getHeadingLevel (h_tag h)) flat124 = [Some 1, Some 2, Some 4]
   \<and> set (map levelNum flat124) = {1, 2, 4}
   \<and> filter (\<lambda>i. type i = ''skipped_level'') (identifyIssues asciiCase flat124 (countByLevel flat124))
       = [\<lparr>type = ''skipped_level'', severity = Medium,
           detail = ''Heading level skipped: H3 (found H2 followed by H4)''\<rparr>]"
proof -
  have s: "set (map levelNum flat124) = {1, 2, 4}" by (simp add: flat124_levels)
  from skipped_levels_detected [OF flat124_numeric, where cm = asciiCase and cnts = "countByLevel flat124"] s flat124_parsed
  show ?thesis by blast
qed

lemma identifyIssues_types:
  "i \<in> set (identifyIssues cm flat cnts) \<Longrightarrow>
     type i \<in> {''missing_h1'', ''multiple_h1'', ''empty_heading'', ''skipped_level'', ''no_h1_first''}"
  unfolding identifyIssues_parts
  by (auto dest: type_h1_part type_empty_part type_adjacentSkips type_first_part)

lemma identifyIssues_h1_only:
  "t = ''missing_h1'' \<or> t = ''multiple_h1'' \<Longrightarrow>
   filter (\<lambda>i. type i = t) (identifyIssues cm flat cnts) = filter (\<lambda>i. type i = t) (spec_h1_part cnts)"
proof -
  assume t: "t = ''missing_h1'' \<or> t = ''multiple_h1''"
  have f2: "filter (\<lambda>i. type i = t) (spec_empty_part cm flat) = []"
    using t by (intro filter_none) (auto dest: type_empty_part)
  have f3: "filter (\<lambda>i. type i = t) (adjacentSkips ls) = []" for ls
    using t by (intro filter_none) (auto dest: type_adjacentSkips)
  have f4: "filter (\<lambda>i. type i = t) (spec_first_part cm flat) = []"
    using t by (intro filter_none) (auto dest: type_first_part)
  show ?thesis by (simp add: identifyIssues_parts f2 f3 f4)
qed

text \<open>
  C5: for every flat list and counts map, \<open>missing_h1\<close> (critical) is emitted exactly when
  the H1 count is zero, \<open>multiple_h1\<close> (high) exactly when it exceeds the maximum of 1,
  and the two never occur together.
\<close>

theorem h1_count_issues:
  "filter (\<lambda>i. type i = ''missing_h1'') (identifyIssues cm flat cnts)
     = (if (case cnts ''h1'' of None \<Rightarrow> 0 | Some c \<Rightarrow> c) = 0
        then [\<lparr>type = ''missing_h1'', severity = Critical,
               detail = ''Page is missing an H1 heading''\<rparr>] else [])
   \<and> filter (\<lambda>i. type i = ''multiple_h1'') (identifyIssues cm flat cnts)
     = (if (case cnts ''h1'' of None \<Rightarrow> 0 | Some c \<Rightarrow> c) > maxH1Count
        then [multipleH1Issue (case cnts ''h1'' of None \<Rightarrow> 0 | Some c \<Rightarrow> c)] else [])
   \<and> severity (multipleH1Issue n) = High \<and> type (multipleH1Issue n) = ''multiple_h1''
   \<and> maxH1Count = 1
   \<and> \<not> ((\<exists>i\<in>set (identifyIssues cm flat cnts). type i = ''missing_h1'')
        \<and> (\<exists>i\<in>set (identifyIssues cm flat cnts). type i = ''multiple_h1''))"
proof -
  let ?h1 = "case cnts ''h1'' of None \<Rightarrow> 0 | Some c \<Rightarrow> c"
  have a: "filter (\<lambda>i. type i = ''missing_h1'') (identifyIssues cm flat cnts)
     = (if ?h1 = 0 then [\<lparr>type = ''missing_h1'', severity = Critical,
               detail = ''Page is missing an H1 heading''\<rparr>] else [])"
    by (simp add: identifyIssues_h1_only spec_h1_part_def Let_def missingH1Issue_def
        multipleH1Issue_def)
  have b: "filter (\<lambda>i. type i = ''multiple_h1'') (identifyIssues cm flat cnts)
     = (if ?h1 > maxH1Count then [multipleH1Issue ?h1] else [])"
    by (simp add: identifyIssues_h1_only spec_h1_part_def Let_def missingH1Issue_def
        multipleH1Issue_def maxH1Count_def)
  have c: "severity (multipleH1Issue n) = High \<and> type (multipleH1Issue n) = ''multiple_h1''"
    by (simp add: multipleH1Issue_def)
  have m1: "(\<exists>i\<in>set (identifyIssues cm flat cnts). type i = ''missing_h1'') \<Longrightarrow> ?h1 = 0"
  proof -
    assume "\<exists>i\<in>set (identifyIssues cm flat cnts). type i = ''missing_h1''"
    then have "filter (\<lambda>i. type i = ''missing_h1'') (identifyIssues cm flat cnts) \<noteq> []"
      by (simp add: filter_empty_conv)
    with a show "?h1 = 0" by (simp split: if_splits)
  qed
  have m2: "(\<exists>i\<in>set (identifyIssues cm flat cnts). type i = ''multiple_h1'') \<Longrightarrow> ?h1 > maxH1Count"
  proof -
    assume "\<exists>i\<in>set (identifyIssues cm flat cnts). type i = ''multiple_h1''"
    then have "filter (\<lambda>i. type i = ''multiple_h1'') (identifyIssues cm flat cnts) \<noteq> []"
      by (simp add: filter_empty_conv)
    with b show "?h1 > maxH1Count" by (simp split: if_splits)
  qed
  have d: "\<not> ((\<exists>i\<in>set (identifyIssues cm flat cnts). type i = ''missing_h1'')
        \<and> (\<exists>i\<in>set (identifyIssues cm flat cnts). type i = ''multiple_h1''))"
  proof
    assume both: "(\<exists>i\<in>set (identifyIssues cm flat cnts). type i = ''missing_h1'')
        \<and> (\<exists>i\<in>set (identifyIssues cm flat cnts). type i = ''multiple_h1'')"
    from both m1 have "?h1 = 0" by blast
    moreover from both m2 have "?h1 > maxH1Count" by blast
    ultimately show False by (simp add: maxH1Count_def)
  qed
  from a b c d show ?thesis by (simp add: maxH1Count_def)
qed

theorem h1_count_issues_witness:
  "filter (\<lambda>i. type i = ''missing_h1'') (identifyIssues asciiCase flat124 Map.empty)
     = [\<lparr>type = ''missing_h1'', severity = Critical, detail = ''Page is missing an H1 heading''\<rparr>]
   \<and> filter (\<lambda>i. type i = ''multiple_h1'') (identifyIssues asciiCase flat124 [''h1'' \<mapsto> 3])
     = [\<lparr>type = ''multiple_h1'', severity = High,
         detail = ''Page has 3 H1 headings (recommended: 1)''\<rparr>]
   \<and> filter (\<lambda>i. type i = ''multiple_h1'') (identifyIssues asciiCase flat124 [''h1'' \<mapsto> 1]) = []
   \<and> filter (\<lambda>i. type i = ''missing_h1'') (identifyIssues asciiCase flat124 [''h1'' \<mapsto> 1]) = []"
  using h1_count_issues [where cm = asciiCase and flat = flat124 and cnts = Map.empty and n = 3]
    h1_count_issues [where cm = asciiCase and flat = flat124 and cnts = "[''h1'' \<mapsto> 3]" and n = 3]
    h1_count_issues [where cm = asciiCase and flat = flat124 and cnts = "[''h1'' \<mapsto> 1]" and n = 3]
  by (simp add: multipleH1Issue_def maxH1Count_def showInt_def showNat.simps digitChar_def)

lemma keywordLoop_eq:
  "keywordLoop cm flat (toLowerCase cm kw) kp =
     \<lparr>inH1 = (inH1 kp \<or> (\<exists>h\<in>set flat. h_tag h = ''h1'' \<and> kwMatch cm kw h)),
      inH2 = inH2 kp @ map h_text (filter (\<lambda>h. h_tag h = ''h2'' \<and> kwMatch cm kw h) flat),
      count = count kp + int (length (filter (kwMatch cm kw) flat))\<rparr>"
proof (induction flat arbitrary: kp)
  case Nil
  then show ?case by simp
next
  case (Cons item rest)
  show ?case
    by (cases "kwMatch cm kw item")
       (auto simp: Cons.IH Let_def includesStr_def kwMatch_def)
qed

lemma checkKeywordPresence_eq:
  "checkKeywordPresence cm flat kw =
     \<lparr>inH1 = (\<exists>h\<in>set flat. h_tag h = ''h1'' \<and> kwMatch cm kw h),
      inH2 = map h_text (filter (\<lambda>h. h_tag h = ''h2'' \<and> kwMatch cm kw h) flat),
      count = int (length (filter (kwMatch cm kw) flat))\<rparr>"
  by (simp add: checkKeywordPresence_def keywordLoop_eq)

lemma issues_analyzeFlatList:
  "issues (analyzeFlatList cm flat kw) = identifyIssues cm flat (countByLevel flat) @ spec_keyword_part cm flat kw"
  by (simp add: analyzeFlatList_def Let_def spec_keyword_part_def checkKeywordPresence_eq
      split: option.split)

text \<open>
  C4: the issues come in this order: the H1-count issue if any, the \<open>empty_heading\<close>
  issues in sequence order, the \<open>skipped_level\<close> issues over the ascending used levels,
  \<open>no_h1_first\<close> if applicable, and last \<open>keyword_missing_h1\<close> when a (non-empty)
  keyword was given and no H1 matched it. The loops of the code are compared with the
  list comprehensions \<open>spec_h1_part\<close> \<dots> \<open>spec_keyword_part\<close>.
\<close>

theorem issues_detection_order:
  assumes "\<forall>h\<in>set flat. getHeadingLevel (h_tag h) \<noteq> None"
  shows "identifyIssues cm flat cnts =
           spec_h1_part cnts @ spec_empty_part cm flat @ spec_skipped_part flat @ spec_first_part cm flat
    \<and> issues (analyzeFlatList cm flat targetKeyword) =
           spec_h1_part (countByLevel flat) @ spec_empty_part cm flat @ spec_skipped_part flat
           @ spec_first_part cm flat @ spec_keyword_part cm flat targetKeyword"
  by (simp add: issues_analyzeFlatList identifyIssues_numeric [OF assms])

lemma countByLevel_flat124: "countByLevel flat124 ''h1'' = Some 1"
  by (simp add: countByLevel_def flat124_def)

lemma not_sublist_seo: "\<not> sublist ''seo'' ''guide''"
  by (simp add: sublist_Cons_right prefix_code)

theorem issues_detection_order_witness:
  "map (\<lambda>h. getHeadingLevel (h_tag h)) flat124 = [Some 1, Some 2, Some 4]
   \<and> issues (analyzeFlatList asciiCase flat124 (Some ''SEO'')) =
       [\<lparr>type = ''empty_heading'', severity = Medium, detail = ''Empty H2 heading at position 2''\<rparr>,
        \<lparr>type = ''skipped_level'', severity = Medium,
          detail = ''Heading level skipped: H3 (found H2 followed by H4)''\<rparr>,
        \<lparr>type = ''keyword_missing_h1'', severity = High,
          detail = ''Target keyword '' @ [CHR 0x22] @ ''SEO'' @ [CHR 0x22] @ '' not found in H1''\<rparr>]"
proof -
  have h1: "spec_h1_part (countByLevel flat124) = []"
    by (simp add: spec_h1_part_def countByLevel_flat124 maxH1Count_def)
  have e: "spec_empty_part asciiCase flat124 =
       [\<lparr>type = ''empty_heading'', severity = Medium, detail = ''Empty H2 heading at position 2''\<rparr>]"
    by (simp add: spec_empty_part_def flat124_def trim_def isWhitespace_def emptyHeadingIssue_def
        asciiCase_def asciiUpperChar_def upperChars_def lowerChars_def showInt_def showNat.simps
        digitChar_def)
  have s: "spec_skipped_part flat124 =
       [\<lparr>type = ''skipped_level'', severity = Medium,
          detail = ''Heading level skipped: H3 (found H2 followed by H4)''\<rparr>]"
    by (simp add: spec_skipped_part_def flat124_levels skippedLevelIssue_def Let_def showInt_def
        showNat.simps digitChar_def)
  have f: "spec_first_part asciiCase flat124 = []"
    by (simp add: spec_first_part_def flat124_def getHeadingLevel_def digitValue_def)
  have k: "spec_keyword_part asciiCase flat124 (Some ''SEO'') =
       [\<lparr>type = ''keyword_missing_h1'', severity = High,
          detail = ''Target keyword '' @ [CHR 0x22] @ ''SEO'' @ [CHR 0x22] @ '' not found in H1''\<rparr>]"
    by (simp add: spec_keyword_part_def flat124_def kwMatch_def keywordMissingIssue_def
        asciiCase_def asciiLowerChar_def upperChars_def lowerChars_def not_sublist_seo)
  from issues_detection_order [OF flat124_numeric, where cm = asciiCase
      and cnts = "countByLevel flat124" and targetKeyword = "Some ''SEO''"]
    flat124_parsed h1 e s f k
  show ?thesis by simp
qed

text \<open>
  C8: with a non-empty target keyword, the keyword presence records whether some H1 matches,
  the texts of the matching H2s and the number of matching headings of any level. A heading
  matches when the lower-cased keyword is a substring of its lower-cased text, so the match
  sees keyword and text only through their lower-case forms: keywords that lower-case alike
  give the same keyword presence. \<open>keyword_missing_h1\<close> (high) is emitted if and only if
  no H1 matched. This holds for whatever case mapping the language supplies.
\<close>

theorem keyword_presence:
  assumes "kw \<noteq> []"
  shows "keywordPresence (analyzeFlatList cm flat (Some kw)) =
           Some \<lparr>inH1 = (\<exists>h\<in>set flat. h_tag h = ''h1'' \<and> kwMatch cm kw h),
                 inH2 = map h_text (filter (\<lambda>h. h_tag h = ''h2'' \<and> kwMatch cm kw h) flat),
                 count = int (length (filter (kwMatch cm kw) flat))\<rparr>
    \<and> filter (\<lambda>i. type i = ''keyword_missing_h1'') (issues (analyzeFlatList cm flat (Some kw))) =
           (if \<exists>h\<in>set flat. h_tag h = ''h1'' \<and> kwMatch cm kw h then []
            else [\<lparr>type = ''keyword_missing_h1'', severity = High,
                   detail = ''Target keyword '' @ [CHR 0x22] @ kw @ [CHR 0x22]
                            @ '' not found in H1''\<rparr>])
    \<and> (\<forall>h. kwMatch cm kw h = sublist (toLowerCase cm kw) (toLowerCase cm (h_text h)))
    \<and> (\<forall>kw'. kw' \<noteq> [] \<and> toLowerCase cm kw' = toLowerCase cm kw \<longrightarrow>
           keywordPresence (analyzeFlatList cm flat (Some kw'))
             = keywordPresence (analyzeFlatList cm flat (Some kw)))
    \<and> (\<forall>h h'. toLowerCase cm (h_text h') = toLowerCase cm (h_text h) \<longrightarrow>
           kwMatch cm kw h' = kwMatch cm kw h)"
proof -
  have a: "keywordPresence (analyzeFlatList cm flat (Some k)) =
           Some \<lparr>inH1 = (\<exists>h\<in>set flat. h_tag h = ''h1'' \<and> kwMatch cm k h),
                 inH2 = map h_text (filter (\<lambda>h. h_tag h = ''h2'' \<and> kwMatch cm k h) flat),
                 count = int (length (filter (kwMatch cm k) flat))\<rparr>" if "k \<noteq> []" for k
    using that by (simp add: analyzeFlatList_def Let_def checkKeywordPresence_eq)
  have f0: "filter (\<lambda>i. type i = ''keyword_missing_h1'') (identifyIssues cm flat (countByLevel flat)) = []"
    by (rule filter_none) (auto dest: identifyIssues_types)
  have b: "filter (\<lambda>i. type i = ''keyword_missing_h1'') (issues (analyzeFlatList cm flat (Some kw))) =
           (if \<exists>h\<in>set flat. h_tag h = ''h1'' \<and> kwMatch cm kw h then []
            else [\<lparr>type = ''keyword_missing_h1'', severity = High,
                   detail = ''Target keyword '' @ [CHR 0x22] @ kw @ [CHR 0x22]
                            @ '' not found in H1''\<rparr>])"
    using assms by (simp add: issues_analyzeFlatList f0 spec_keyword_part_def keywordMissingIssue_def)
  have c: "kwMatch cm kw h = sublist (toLowerCase cm kw) (toLowerCase cm (h_text h))" for h
    by (simp add: kwMatch_def)
  have d: "keywordPresence (analyzeFlatList cm flat (Some kw'))
             = keywordPresence (analyzeFlatList cm flat (Some kw))"
    if "kw' \<noteq> []" "toLowerCase cm kw' = toLowerCase cm kw" for kw'
  proof -
    have "kwMatch cm kw' = kwMatch cm kw" using that(2) by (simp add: kwMatch_def fun_eq_iff)
    then show ?thesis using a [OF that(1)] a [OF assms] by simp
  qed
  have e: "kwMatch cm kw h' = kwMatch cm kw h"
    if "toLowerCase cm (h_text h') = toLowerCase cm (h_text h)" for h h'
    using that by (simp add: kwMatch_def)
  from a [OF assms] b c d e show ?thesis by blast
qed

lemma flatSeo_match:
  "filter (kwMatch asciiCase ''sEo'') flatSeo =
     [\<lparr>h_tag = ''h1'', h_text = ''SEO Guide'', h_order = 1\<rparr>,
      \<lparr>h_tag = ''h2'', h_text = ''Seo tips'', h_order = 2\<rparr>,
      \<lparr>h_tag = ''h3'', h_text = ''more seo'', h_order = 4\<rparr>]"
  "filter (\<lambda>h. h_tag h = ''h2'' \<and> kwMatch asciiCase ''sEo'' h) flatSeo =
     [\<lparr>h_tag = ''h2'', h_text = ''Seo tips'', h_order = 2\<rparr>]"
  "(\<exists>h\<in>set flatSeo. h_tag h = ''h1'' \<and> kwMatch asciiCase ''sEo'' h) = True"
  by code_simp+

lemma flatSeo_no_h1_match:
  "filter (kwMatch asciiCase ''Tips'') flatSeo =
     [\<lparr>h_tag = ''h2'', h_text = ''Seo tips'', h_order = 2\<rparr>]"
  "filter (\<lambda>h. h_tag h = ''h2'' \<and> kwMatch asciiCase ''Tips'' h) flatSeo =
     [\<lparr>h_tag = ''h2'', h_text = ''Seo tips'', h_order = 2\<rparr>]"
  "(\<exists>h\<in>set flatSeo. h_tag h = ''h1'' \<and> kwMatch asciiCase ''Tips'' h) = False"
  by code_simp+

theorem keyword_presence_witness:
  "keywordPresence (analyzeFlatList asciiCase flatSeo (Some ''sEo'')) =
     Some \<lparr>inH1 = True, inH2 = [''Seo tips''], count = 3\<rparr>
   \<and> filter (\<lambda>i. type i = ''keyword_missing_h1'')
        (issues (analyzeFlatList asciiCase flatSeo (Some ''sEo''))) = []
   \<and> keywordPresence (analyzeFlatList asciiCase flatSeo (Some ''Tips'')) =
     Some \<lparr>inH1 = False, inH2 = [''Seo tips''], count = 1\<rparr>
   \<and> filter (\<lambda>i. type i = ''keyword_missing_h1'')
        (issues (analyzeFlatList asciiCase flatSeo (Some ''Tips''))) =
       [\<lparr>type = ''keyword_missing_h1'', severity = High,
          detail = ''Target keyword '' @ [CHR 0x22] @ ''Tips'' @ [CHR 0x22] @ '' not found in H1''\<rparr>]"
proof -
  have n1: "''sEo'' \<noteq> []" and n2: "''Tips'' \<noteq> []" by simp_all
  note t1 = keyword_presence [OF n1, where cm = asciiCase and flat = flatSeo]
  note t2 = keyword_presence [OF n2, where cm = asciiCase and flat = flatSeo]
  have a1: "keywordPresence (analyzeFlatList asciiCase flatSeo (Some ''sEo'')) =
     Some \<lparr>inH1 = True, inH2 = [''Seo tips''], count = 3\<rparr>"
    using conjunct1 [OF t1] by (simp add: flatSeo_match)
  have b1: "filter (\<lambda>i. type i = ''keyword_missing_h1'')
        (issues (analyzeFlatList asciiCase flatSeo (Some ''sEo''))) = []"
    using conjunct1 [OF conjunct2 [OF t1]] by (simp add: flatSeo_match)
  have a2: "keywordPresence (analyzeFlatList asciiCase flatSeo (Some ''Tips'')) =
     Some \<lparr>inH1 = False, inH2 = [''Seo tips''], count = 1\<rparr>"
    using conjunct1 [OF t2] by (simp add: flatSeo_no_h1_match)
  have b2: "filter (\<lambda>i. type i = ''keyword_missing_h1'')
        (issues (analyzeFlatList asciiCase flatSeo (Some ''Tips''))) =
       [\<lparr>type = ''keyword_missing_h1'', severity = High,
          detail = ''Target keyword '' @ [CHR 0x22] @ ''Tips'' @ [CHR 0x22] @ '' not found in H1''\<rparr>]"
    using conjunct1 [OF conjunct2 [OF t2]] by (simp add: flatSeo_no_h1_match)
  from a1 b1 a2 b2 show ?thesis by simp
qed

text \<open>
  C10: the empty string as target keyword gives the same result as no keyword: no keyword
  presence and no \<open>keyword_missing_h1\<close> issue, whatever the headings are.
\<close>

theorem empty_keyword_ignored:
  "analyzeFlatList cm flat (Some []) = analyzeFlatList cm flat None
   \<and> analyzeHeadings cm els (Some []) = analyzeHeadings cm els None
   \<and> keywordPresence (analyzeFlatList cm flat (Some [])) = None
   \<and> issues (analyzeFlatList cm flat (Some [])) = identifyIssues cm flat (countByLevel flat)
   \<and> filter (\<lambda>i. type i = ''keyword_missing_h1'') (issues (analyzeFlatList cm flat (Some []))) = []"
proof -
  have a: "analyzeFlatList cm flat (Some []) = analyzeFlatList cm flat None" for flat
    by (simp add: analyzeFlatList_def Let_def)
  have b: "keywordPresence (analyzeFlatList cm flat (Some [])) = None"
    by (simp add: analyzeFlatList_def Let_def)
  have c: "issues (analyzeFlatList cm flat (Some [])) = identifyIssues cm flat (countByLevel flat)"
    by (simp add: analyzeFlatList_def Let_def)
  have d: "filter (\<lambda>i. type i = ''keyword_missing_h1'') (identifyIssues cm flat (countByLevel flat)) = []"
    by (rule filter_none) (auto dest: identifyIssues_types)
  from a b c d show ?thesis by (simp add: analyzeHeadings_def)
qed

theorem empty_keyword_ignored_witness:
  "keywordPresence (analyzeHeadings asciiCase [(''h2'', ''Only'')] (Some [])) = None
   \<and> issues (analyzeHeadings asciiCase [(''h2'', ''Only'')] (Some [])) =
       [\<lparr>type = ''missing_h1'', severity = Critical, detail = ''Page is missing an H1 heading''\<rparr>,
        \<lparr>type = ''no_h1_first'', severity = Medium,
          detail = ''First heading is H2, expected H1''\<rparr>]"
proof -
  let ?flat = "[\<lparr>h_tag = ''h2'', h_text = ''Only'', h_order = 1\<rparr>]"
  have n: "\<forall>h\<in>set ?flat. getHeadingLevel (h_tag h) \<noteq> None"
    by (simp add: getHeadingLevel_def digitValue_def)
  have i: "identifyIssues asciiCase ?flat (countByLevel ?flat) =
       [\<lparr>type = ''missing_h1'', severity = Critical, detail = ''Page is missing an H1 heading''\<rparr>,
        \<lparr>type = ''no_h1_first'', severity = Medium,
          detail = ''First heading is H2, expected H1''\<rparr>]"
    by (simp add: identifyIssues_numeric [OF n] spec_h1_part_def countByLevel_def
        missingH1Issue_def spec_empty_part_def trim_def isWhitespace_def spec_skipped_part_def
        levelNum_def spec_first_part_def getHeadingLevel_def digitValue_def noH1FirstIssue_def
        asciiCase_def asciiUpperChar_def upperChars_def lowerChars_def)
  note t = empty_keyword_ignored [where cm = asciiCase and flat = ?flat and els = "[(''h2'', ''Only'')]"]
  have k: "keywordPresence (analyzeFlatList asciiCase ?flat (Some [])) = None"
    using t by (rule conjunct1 [OF conjunct2 [OF conjunct2]])
  have j: "issues (analyzeFlatList asciiCase ?flat (Some [])) = identifyIssues asciiCase ?flat (countByLevel ?flat)"
    using t by (rule conjunct1 [OF conjunct2 [OF conjunct2 [OF conjunct2]]])
  show ?thesis by (simp add: analyzeHeadings_def k j i)
qed

section \<open>Properties of the tree builder\<close>

lemma popLevels_subset: "set (popLevels flat L st) \<subseteq> set st"
  by (simp add: popLevels_def set_dropWhileD subsetI)

lemma stackAt_bound: "(a, l) \<in> set (stackAt flat n) \<Longrightarrow> a < n"
proof (induction n arbitrary: a l)
  case 0
  then show ?case by simp
next
  case (Suc n)
  from Suc.prems have "(a, l) = (n, levelAt flat n) \<or> (a, l) \<in> set (stackAt flat n)"
    using popLevels_subset [of flat "levelAt flat n" "stackAt flat n"] by auto
  then show ?case using Suc.IH by (auto simp: less_Suc_eq)
qed

lemma parentAt_less: "parentAt flat c = Some p \<Longrightarrow> p < c"
proof -
  assume a: "parentAt flat c = Some p"
  then obtain l rest where "popLevels flat (levelAt flat c) (stackAt flat c) = (p, l) # rest"
    by (auto simp: parentAt_def split: list.splits)
  then have "(p, l) \<in> set (stackAt flat c)"
    using popLevels_subset [of flat "levelAt flat c" "stackAt flat c"] by auto
  then show ?thesis by (rule stackAt_bound)
qed

lemma popStack_popLevels:
  "(\<And>a l. (a, l) \<in> set st \<Longrightarrow> getHeadingLevel (h_tag (h ! a)) = levelAt flat a) \<Longrightarrow>
   popStack h L st = popLevels flat L st"
proof (induction st)
  case Nil
  then show ?case by (simp add: popLevels_def)
next
  case (Cons e st)
  obtain a l where e: "e = (a, l)" by (cases e)
  have t: "getHeadingLevel (h_tag (h ! a)) = levelAt flat a"
    using Cons.prems [of a l] e by simp
  have "popStack h L st = popLevels flat L st"
    using Cons.prems by (intro Cons.IH) auto
  then show ?case using e t by (simp add: popLevels_def)
qed

lemma treeInv_init: "treeInv flat 0 initialState"
  by (simp add: treeInv_def initialState_def)

lemma treeInv_step:
  assumes inv: "treeInv flat n s" and n: "n < length flat"
  shows "treeInv flat (Suc n) (addHeading s (flat ! n))"
proof -
  let ?item = "flat ! n"
  let ?L = "getHeadingLevel (h_tag ?item)"
  let ?node = "\<lparr>h_tag = h_tag ?item, h_text = h_text ?item, h_order = h_order ?item,
                 children = []\<rparr>"
  let ?h1 = "heap s @ [?node]"
  from inv have len: "length (heap s) = n"
    and lab: "\<And>a. a < n \<Longrightarrow> h_tag (heap s ! a) = h_tag (flat ! a)
                \<and> h_text (heap s ! a) = h_text (flat ! a)
                \<and> h_order (heap s ! a) = h_order (flat ! a)"
    and ch: "\<And>a. a < n \<Longrightarrow> children (heap s ! a) = filter (\<lambda>c. parentAt flat c = Some a) [0..<n]"
    and tr: "tree s = filter (\<lambda>c. parentAt flat c = None) [0..<n]"
    and st: "stack s = stackAt flat n"
    by (simp_all add: treeInv_def)
  have L: "?L = levelAt flat n" by (simp add: levelAt_def)
  have pop: "popStack ?h1 ?L (stack s) = popLevels flat (levelAt flat n) (stackAt flat n)"
    unfolding st L
  proof (rule popStack_popLevels)
    fix a l assume "(a, l) \<in> set (stackAt flat n)"
    then have "a < n" by (rule stackAt_bound)
    then show "getHeadingLevel (h_tag (?h1 ! a)) = levelAt flat a"
      using lab [of a] len by (simp add: nth_append levelAt_def)
  qed
  have noparent: "parentAt flat c \<noteq> Some n" if "c \<le> n" for c
    using parentAt_less [of flat c n] that by auto
  show ?thesis
  proof (cases "popLevels flat (levelAt flat n) (stackAt flat n)")
    case Nil
    then have pn: "parentAt flat n = None" by (simp add: parentAt_def)
    have s': "addHeading s ?item = \<lparr>heap = ?h1, tree = tree s @ [n], stack = [(n, ?L)]\<rparr>"
      using pop Nil len by (simp add: addHeading_def Let_def)
    have c': "children (?h1 ! a) = filter (\<lambda>c. parentAt flat c = Some a) [0..<Suc n]"
      if "a < Suc n" for a
    proof (cases "a < n")
      case True
      then show ?thesis using ch [of a] len pn by (simp add: nth_append)
    next
      case False
      with that have an: "a = n" by simp
      have "filter (\<lambda>c. parentAt flat c = Some n) [0..<Suc n] = []"
        by (rule filter_none) (use noparent in auto)
      then show ?thesis using an len by (simp add: nth_append)
    qed
    have l': "h_tag (?h1 ! a) = h_tag (flat ! a) \<and> h_text (?h1 ! a) = h_text (flat ! a)
                \<and> h_order (?h1 ! a) = h_order (flat ! a)" if "a < Suc n" for a
      using that lab [of a] len by (cases "a < n") (auto simp: nth_append less_Suc_eq)
    show ?thesis
      unfolding treeInv_def s'
      using c' l' len pn tr Nil L by simp
  next
    case (Cons e rest)
    obtain p pl where e: "e = (p, pl)" by (cases e)
    with Cons have pn: "parentAt flat n = Some p" by (simp add: parentAt_def)
    then have pless: "p < n" by (rule parentAt_less)
    have s': "addHeading s ?item =
        \<lparr>heap = ?h1[p := (?h1 ! p)\<lparr>children := children (?h1 ! p) @ [n]\<rparr>],
         tree = tree s, stack = (n, ?L) # (p, pl) # rest\<rparr>"
      using pop Cons e len by (simp add: addHeading_def Let_def)
    let ?h2 = "?h1[p := (?h1 ! p)\<lparr>children := children (?h1 ! p) @ [n]\<rparr>]"
    have c': "children (?h2 ! a) = filter (\<lambda>c. parentAt flat c = Some a) [0..<Suc n]"
      if "a < Suc n" for a
    proof (cases "a < n")
      case True
      show ?thesis
      proof (cases "a = p")
        case True
        then show ?thesis using ch [of p] len pn pless by (simp add: nth_append)
      next
        case False
        then show ?thesis using ch [of a] len pn \<open>a < n\<close> by (simp add: nth_append)
      qed
    next
      case False
      with that have an: "a = n" by simp
      have "filter (\<lambda>c. parentAt flat c = Some n) [0..<Suc n] = []"
        by (rule filter_none) (use noparent in auto)
      then show ?thesis using an len pless by (simp add: nth_append)
    qed
    have l': "h_tag (?h2 ! a) = h_tag (flat ! a) \<and> h_text (?h2 ! a) = h_text (flat ! a)
                \<and> h_order (?h2 ! a) = h_order (flat ! a)" if "a < Suc n" for a
    proof (cases "a = p")
      case True
      then show ?thesis using lab [of p] len pless by (simp add: nth_append)
    next
      case False
      then show ?thesis using that lab [of a] len
        by (cases "a < n") (auto simp: nth_append less_Suc_eq)
    qed
    show ?thesis
      unfolding treeInv_def s'
      using c' l' len pn tr Cons e L by simp
  qed
qed

lemma treeInv_take: "n \<le> length flat \<Longrightarrow> treeInv flat n (buildState (take n flat))"
proof (induction n)
  case 0
  then show ?case by (simp add: buildState_def treeInv_init)
next
  case (Suc n)
  then have n: "n < length flat" by simp
  have "buildState (take (Suc n) flat) = addHeading (buildState (take n flat)) (flat ! n)"
    using n by (simp add: buildState_def take_Suc_conv_app_nth)
  then show ?case using treeInv_step [OF Suc.IH n] n by simp
qed

lemma treeInv_buildState: "treeInv flat (length flat) (buildState flat)"
  using treeInv_take [of "length flat" flat] by simp

lemma popStack_dropWhile:
  "popStack h L st = dropWhile (\<lambda>(a, l). js_ge (getHeadingLevel (h_tag (h ! a))) L) st"
  by (induction st) auto

lemma parentAt_level:
  assumes "parentAt flat c = Some p"
  shows "\<not> js_ge (levelAt flat p) (levelAt flat c)"
proof -
  let ?P = "\<lambda>(a, l). js_ge (levelAt flat a) (levelAt flat c)"
  from assms obtain l rest where d: "dropWhile ?P (stackAt flat c) = (p, l) # rest"
    by (auto simp: parentAt_def popLevels_def split: list.splits)
  then have ne: "dropWhile ?P (stackAt flat c) \<noteq> []" by simp
  from hd_dropWhile [OF ne] d show ?thesis by simp
qed

lemma children_iff:
  assumes "treeInv flat n s" "p < n"
  shows "c \<in> set (children (heap s ! p)) \<longleftrightarrow> c < n \<and> parentAt flat c = Some p"
  using assms by (auto simp: treeInv_def)

lemma tree_iff:
  assumes "treeInv flat n s"
  shows "c \<in> set (tree s) \<longleftrightarrow> c < n \<and> parentAt flat c = None"
  using assms by (auto simp: treeInv_def)

lemma parentOf_parentAt:
  assumes inv: "treeInv flat n s" and c: "c < n"
  shows "parentOf s c = parentAt flat c"
proof (cases "parentAt flat c")
  case None
  have "find (\<lambda>p. c \<in> set (children (heap s ! p))) [0..<n] = None"
    unfolding find_None_iff using children_iff [OF inv] None by auto
  then show ?thesis using inv None by (simp add: parentOf_def treeInv_def)
next
  case (Some p)
  then have pc: "p < c" by (rule parentAt_less)
  with c have pn: "p < n" by simp
  have "find (\<lambda>p. c \<in> set (children (heap s ! p))) [0..<n] = Some p"
    unfolding find_Some_iff
  proof (intro exI [of _ p] conjI allI impI)
    show "p < length [0..<n]" using pn by simp
    show "c \<in> set (children (heap s ! ([0..<n] ! p)))"
      using children_iff [OF inv pn, of c] Some c pn by simp
    show "p = [0..<n] ! p" using pn by simp
    fix j assume j: "j < p"
    then have jn: "j < n" using pn by simp
    show "c \<notin> set (children (heap s ! ([0..<n] ! j)))"
      using children_iff [OF inv jn, of c] Some j jn by simp
  qed
  then show ?thesis using inv Some by (simp add: parentOf_def treeInv_def)
qed

lemma js_ge_refl: "js_ge (Some L) (Some L)"
  by (simp add: js_ge_def)

lemma parentAt_equal_levels:
  assumes "levelAt flat (Suc i) = levelAt flat i" "levelAt flat i = Some L"
  shows "parentAt flat (Suc i) = parentAt flat i"
proof -
  have "popLevels flat (Some L) (stackAt flat (Suc i))
        = popLevels flat (Some L) (popLevels flat (Some L) (stackAt flat i))"
    using assms by (simp add: popLevels_def js_ge_refl)
  also have "\<dots> = popLevels flat (Some L) (stackAt flat i)"
    by (simp add: popLevels_def)
  finally show ?thesis using assms by (simp add: parentAt_def)
qed

lemma parentAt_level_one:
  assumes "levelAt flat c = Some 1"
    and "\<And>a. a < c \<Longrightarrow> \<exists>l. levelAt flat a = Some l \<and> 1 \<le> l"
  shows "parentAt flat c = None"
proof -
  have "js_ge (levelAt flat a) (Some 1)" if "(a, l) \<in> set (stackAt flat c)" for a l
  proof -
    from that have "a < c" by (rule stackAt_bound)
    from assms(2) [OF this] show ?thesis by (auto simp: js_ge_def)
  qed
  then have "popLevels flat (Some 1) (stackAt flat c) = []"
    by (auto simp: popLevels_def dropWhile_eq_Nil_conv)
  then show ?thesis using assms(1) by (simp add: parentAt_def)
qed

lemma depthOf_same_parent:
  assumes "parentOf s c = parentOf s d" "\<And>p. parentOf s c = Some p \<Longrightarrow> p < c \<and> p < d"
  shows "depthOf s c = depthOf s d"
proof (cases "parentOf s c")
  case None
  then show ?thesis using assms(1) by (simp add: depthOf.simps)
next
  case (Some p)
  with assms(2) have "p < c" "p < d" by auto
  then show ?thesis using Some assms(1)
    by (subst depthOf.simps, subst (2) depthOf.simps) simp
qed

lemma readNode_built:
  assumes inv: "treeInv flat n s" and a: "a < n"
  shows "readNode (heap s) a =
     HNode (h_tag (flat ! a)) (h_text (flat ! a)) (h_order (flat ! a))
       (map (readNode (heap s)) (children (heap s ! a)))"
proof -
  have "filter (\<lambda>c. a < c \<and> c < length (heap s)) (children (heap s ! a)) = children (heap s ! a)"
  proof (rule filter_all)
    fix c assume "c \<in> set (children (heap s ! a))"
    then have "c < n \<and> parentAt flat c = Some a" using children_iff [OF inv a] by simp
    then show "a < c \<and> c < length (heap s)"
      using inv parentAt_less [of flat c a] by (simp add: treeInv_def)
  qed
  then show ?thesis
    using inv a by (subst readNode.simps) (simp add: treeInv_def)
qed

lemma order_mono:
  assumes "sorted_wrt (<) (map h_order flat)" "i < j" "j < length flat"
  shows "h_order (flat ! i) < h_order (flat ! j)"
  using sorted_wrt_nth_less [OF assms(1), of i j] assms(2,3) by simp

lemma built_nodes_ordered:
  assumes inv: "treeInv flat n s" and n: "n \<le> length flat"
    and num: "\<forall>h\<in>set flat. getHeadingLevel (h_tag h) \<noteq> None"
    and ord: "sorted_wrt (<) (map h_order flat)"
  shows "a < n \<Longrightarrow> childrenAscending (readNode (heap s) a) \<and> levelsIncrease (readNode (heap s) a)"
proof (induction "n - a" arbitrary: a rule: less_induct)
  case less
  let ?cs = "children (heap s ! a)"
  have cs: "?cs = filter (\<lambda>c. parentAt flat c = Some a) [0..<n]"
    using inv less.prems by (simp add: treeInv_def)
  have mem: "a < c \<and> c < n \<and> parentAt flat c = Some a" if "c \<in> set ?cs" for c
    using that cs parentAt_less [of flat c a] by auto
  have ih: "childrenAscending (readNode (heap s) c) \<and> levelsIncrease (readNode (heap s) c)"
    if "c \<in> set ?cs" for c
    using mem [OF that] less.prems by (intro less.hyps) auto
  have ordc: "t_order (readNode (heap s) c) = h_order (flat ! c)"
    and tagc: "t_tag (readNode (heap s) c) = h_tag (flat ! c)" if "c < n" for c
    using readNode_built [OF inv that] by simp_all
  have sorted_cs: "sorted_wrt (<) ?cs"
    unfolding cs by (intro sorted_wrt_filter) simp
  have "sorted_wrt (\<lambda>c d. t_order (readNode (heap s) c) < t_order (readNode (heap s) d)) ?cs"
  proof (rule sorted_wrt_mono_rel [OF _ sorted_cs])
    fix c d assume cd: "c \<in> set ?cs" "d \<in> set ?cs" "c < d"
    then have "h_order (flat ! c) < h_order (flat ! d)"
      using mem [of d] n by (intro order_mono [OF ord]) auto
    then show "t_order (readNode (heap s) c) < t_order (readNode (heap s) d)"
      using mem [of c] mem [of d] cd ordc by simp
  qed
  then have asc: "sorted_wrt (<) (map t_order (map (readNode (heap s)) ?cs))"
    by (simp add: sorted_wrt_map)
  have lev: "js_lt (getHeadingLevel (h_tag (flat ! a))) (getHeadingLevel (h_tag (flat ! c)))"
    if "c \<in> set ?cs" for c
  proof -
    from mem [OF that] have p: "parentAt flat c = Some a" and cn: "c < n" by auto
    from parentAt_level [OF p] have ng: "\<not> js_ge (levelAt flat a) (levelAt flat c)" .
    have "flat ! a \<in> set flat" "flat ! c \<in> set flat"
      using less.prems cn n by auto
    with num have "getHeadingLevel (h_tag (flat ! a)) \<noteq> None"
      "getHeadingLevel (h_tag (flat ! c)) \<noteq> None" by blast+
    then obtain x y where "levelAt flat a = Some x" "levelAt flat c = Some y"
      unfolding levelAt_def by blast
    with ng show ?thesis by (simp add: js_ge_def js_lt_def levelAt_def)
  qed
  show ?case
    unfolding readNode_built [OF inv less.prems]
    using asc ih lev tagc mem by auto
qed

lemma scanLoop_eq:
  "scanLoop els k acc =
     acc @ map (\<lambda>(i, tg, tx). \<lparr>h_tag = tg, h_text = tx, h_order = k + 1 + int i\<rparr>)
             (zip [0..<length els] els)"
proof (induction els arbitrary: k acc)
  case Nil
  then show ?case by simp
next
  case (Cons e els)
  obtain tg tx where e: "e = (tg, tx)" by (cases e)
  have z: "zip [0..<Suc (length els)] (e # els) = (0, e) # zip (map Suc [0..<length els]) els"
    by (simp add: upt_conv_Cons map_Suc_upt del: upt_Suc)
  show ?case
    unfolding e scanLoop.simps Cons.IH
    using z by (simp add: e zip_map1 case_prod_unfold o_def del: upt_Suc) 
qed

lemma scanLoop_tags: "map h_tag (scanLoop els 0 []) = map fst els"
  by (rule nth_equalityI) (simp_all add: scanLoop_eq case_prod_unfold)

lemma scanLoop_orders: "sorted_wrt (<) (map h_order (scanLoop els 0 []))"
proof -
  have "map h_order (scanLoop els 0 []) = map (\<lambda>i. 1 + int i) [0..<length els]"
    by (rule nth_equalityI) (simp_all add: scanLoop_eq case_prod_unfold)
  moreover have "sorted_wrt (<) (map (\<lambda>i. 1 + int i) [0..<length els])"
    by (simp add: sorted_wrt_map)
  ultimately show ?thesis by simp
qed

lemma built_forest_ordered:
  assumes "\<forall>h\<in>set flat. getHeadingLevel (h_tag h) \<noteq> None"
    and "sorted_wrt (<) (map h_order flat)"
  shows "(\<forall>t\<in>set (buildHeadingTree flat). childrenAscending t \<and> levelsIncrease t)
    \<and> sorted_wrt (<) (map t_order (buildHeadingTree flat))"
proof -
  let ?s = "buildState flat"
  let ?n = "length flat"
  note inv = treeInv_buildState [of flat]
  have r: "r < ?n" if "r \<in> set (tree ?s)" for r
    using that tree_iff [OF inv] by simp
  have a: "childrenAscending (readNode (heap ?s) r) \<and> levelsIncrease (readNode (heap ?s) r)"
    if "r \<in> set (tree ?s)" for r
    using built_nodes_ordered [OF inv _ assms, of r] r [OF that] by simp
  have st: "sorted_wrt (<) (tree ?s)"
    using inv by (simp add: treeInv_def sorted_wrt_filter)
  have "sorted_wrt (\<lambda>c d. t_order (readNode (heap ?s) c) < t_order (readNode (heap ?s) d)) (tree ?s)"
  proof (rule sorted_wrt_mono_rel [OF _ st])
    fix c d assume cd: "c \<in> set (tree ?s)" "d \<in> set (tree ?s)" "c < d"
    then have "h_order (flat ! c) < h_order (flat ! d)"
      using r [of d] by (intro order_mono [OF assms(2)]) auto
    then show "t_order (readNode (heap ?s) c) < t_order (readNode (heap ?s) d)"
      using readNode_built [OF inv r [OF cd(1)]] readNode_built [OF inv r [OF cd(2)]] by simp
  qed
  then have b: "sorted_wrt (<) (map t_order (buildHeadingTree flat))"
    by (simp add: buildHeadingTree_def Let_def sorted_wrt_map)
  from a b show ?thesis by (simp add: buildHeadingTree_def Let_def)
qed

lemma scanned_forest_ordered:
  assumes "\<forall>e\<in>set els. getHeadingLevel (fst e) \<noteq> None"
  shows "\<forall>t\<in>set (headingTree (analyzeHeadings cm els kw)). childrenAscending t \<and> levelsIncrease t"
proof -
  let ?flat = "scanLoop els 0 []"
  have "set (map h_tag ?flat) = set (map fst els)" by (simp only: scanLoop_tags)
  then have "h_tag ` set ?flat = fst ` set els" by simp
  with assms have n: "\<forall>h\<in>set ?flat. getHeadingLevel (h_tag h) \<noteq> None" by force
  from built_forest_ordered [OF n scanLoop_orders] show ?thesis
    by (simp add: analyzeHeadings_def analyzeFlatList_def Let_def)
qed

text \<open>
  C2: for every flat list whose tags carry a digit and whose \<open>order\<close> values increase
  (as the data model has them), every node of the forest returned by \<open>buildHeadingTree\<close>
  has its children in ascending \<open>order\<close> and every child has a level strictly greater
  than its parent's; the roots are in ascending \<open>order\<close> too. The lists that
  \<open>analyzeHeadings\<close> builds from a document scan always have increasing orders, so there
  the property needs the tags only.
\<close>

theorem heading_forest_ordered:
  assumes "\<forall>h\<in>set flat. getHeadingLevel (h_tag h) \<noteq> None"
    and "sorted_wrt (<) (map h_order flat)"
  shows "(\<forall>t\<in>set (buildHeadingTree flat). childrenAscending t \<and> levelsIncrease t)
    \<and> sorted_wrt (<) (map t_order (buildHeadingTree flat))
    \<and> ((\<forall>e\<in>set els. getHeadingLevel (fst e) \<noteq> None) \<longrightarrow>
         (\<forall>t\<in>set (headingTree (analyzeHeadings cm els kw)).
            childrenAscending t \<and> levelsIncrease t))"
  using built_forest_ordered [OF assms] scanned_forest_ordered [where els = els and cm = cm and kw = kw] by blast

lemma flatDoc_tree:
  "buildHeadingTree flatDoc =
     [HNode ''h1'' ''Title'' 1
        [HNode ''h2'' ''Sec A'' 2 [HNode ''h3'' ''Sub'' 3 []], HNode ''h2'' ''Sec B'' 4 []]]"
  by code_simp

lemma flatDoc_levels:
  "map (\<lambda>h. getHeadingLevel (h_tag h)) flatDoc = [Some 1, Some 2, Some 3, Some 2]"
  by (simp add: flatDoc_def getHeadingLevel_def digitValue_def)

theorem heading_forest_ordered_witness:
  "map (\<lambda>h. getHeadingLevel (h_tag h)) flatDoc = [Some 1, Some 2, Some 3, Some 2]
   \<and> map h_order flatDoc = [1, 2, 3, 4]
   \<and> buildHeadingTree flatDoc =
       [HNode ''h1'' ''Title'' 1
          [HNode ''h2'' ''Sec A'' 2 [HNode ''h3'' ''Sub'' 3 []], HNode ''h2'' ''Sec B'' 4 []]]
   \<and> list_all (\<lambda>t. childrenAscending t \<and> levelsIncrease t) (buildHeadingTree flatDoc)"
proof -
  have n: "\<forall>h\<in>set flatDoc. getHeadingLevel (h_tag h) \<noteq> None"
    by (simp add: flatDoc_def getHeadingLevel_def digitValue_def)
  have o: "map h_order flatDoc = [1, 2, 3, 4]" by (simp add: flatDoc_def)
  then have s: "sorted_wrt (<) (map h_order flatDoc)" by simp
  from heading_forest_ordered [OF n s] flatDoc_levels o flatDoc_tree
  show ?thesis by (simp add: list_all_iff)
qed

text \<open>
  C3: node \<open>i\<close> of the store is the node made for the \<open>i\<close>-th heading. For tags
  h1..h9, two consecutive headings of equal level get the same parent (or are both roots),
  hence the same depth, and neither is a child of the other; every heading of level 1 is a
  root of the forest. The builder itself follows the pop rule: when heading \<open>c\<close> comes
  in, the entries whose node has a level \<open>>=\<close> the incoming level are dropped from the top
  of the stack the builder holds after the first \<open>c\<close> headings; the node is attached to
  the node then on top, or becomes a root when the stack is empty, and is pushed.
\<close>

theorem equal_levels_become_siblings:
  assumes "\<forall>h\<in>set flat. \<exists>l. getHeadingLevel (h_tag h) = Some l \<and> 1 \<le> l"
  shows "(\<forall>i. Suc i < length flat
              \<and> getHeadingLevel (h_tag (flat ! Suc i)) = getHeadingLevel (h_tag (flat ! i)) \<longrightarrow>
            parentOf (buildState flat) (Suc i) = parentOf (buildState flat) i
          \<and> (Suc i \<in> set (tree (buildState flat)) \<longleftrightarrow> i \<in> set (tree (buildState flat)))
          \<and> depthOf (buildState flat) (Suc i) = depthOf (buildState flat) i
          \<and> Suc i \<notin> set (children (heap (buildState flat) ! i))
          \<and> i \<notin> set (children (heap (buildState flat) ! Suc i)))
    \<and> (\<forall>i<length flat. getHeadingLevel (h_tag (flat ! i)) = Some 1 \<longrightarrow>
            i \<in> set (tree (buildState flat)) \<and> parentOf (buildState flat) i = None)
    \<and> (\<forall>i<length flat. h_tag (heap (buildState flat) ! i) = h_tag (flat ! i)
            \<and> h_text (heap (buildState flat) ! i) = h_text (flat ! i)
            \<and> h_order (heap (buildState flat) ! i) = h_order (flat ! i))
    \<and> (\<forall>h level st. popStack h level st =
            dropWhile (\<lambda>(a, l). js_ge (getHeadingLevel (h_tag (h ! a))) level) st)
    \<and> (\<forall>c<length flat.
          stack (buildState (take (Suc c) flat)) =
            (c, getHeadingLevel (h_tag (flat ! c)))
            # dropWhile (\<lambda>(a, l). js_ge (getHeadingLevel (h_tag (flat ! a)))
                                       (getHeadingLevel (h_tag (flat ! c))))
                (stack (buildState (take c flat))))
    \<and> (\<forall>c<length flat.
          parentOf (buildState flat) c =
            (case dropWhile (\<lambda>(a, l). js_ge (getHeadingLevel (h_tag (flat ! a)))
                                            (getHeadingLevel (h_tag (flat ! c))))
                    (stack (buildState (take c flat))) of
               [] \<Rightarrow> None | (p, l) # rest \<Rightarrow> Some p))
    \<and> (\<forall>c<length flat. (c \<in> set (tree (buildState flat))) = (parentOf (buildState flat) c = None))
    \<and> (\<forall>c<length flat. parentOf (buildState flat) c = parentAt flat c)
    \<and> stack (buildState flat) = stackAt flat (length flat)"
proof -
  let ?s = "buildState flat"
  let ?n = "length flat"
  note inv = treeInv_buildState [of flat]
  have lev: "\<exists>l. levelAt flat a = Some l \<and> 1 \<le> l" if "a < ?n" for a
    using assms that by (simp add: levelAt_def)
  have A: "parentOf ?s (Suc i) = parentOf ?s i
          \<and> (Suc i \<in> set (tree ?s) \<longleftrightarrow> i \<in> set (tree ?s))
          \<and> depthOf ?s (Suc i) = depthOf ?s i
          \<and> Suc i \<notin> set (children (heap ?s ! i))
          \<and> i \<notin> set (children (heap ?s ! Suc i))"
    if i: "Suc i < ?n"
      and eq: "getHeadingLevel (h_tag (flat ! Suc i)) = getHeadingLevel (h_tag (flat ! i))" for i
  proof -
    from i have i': "i < ?n" by simp
    from lev [OF i'] obtain L where L: "levelAt flat i = Some L" by blast
    have e: "levelAt flat (Suc i) = levelAt flat i" using eq by (simp add: levelAt_def)
    have pa: "parentAt flat (Suc i) = parentAt flat i"
      by (rule parentAt_equal_levels [OF e L])
    have p: "parentOf ?s (Suc i) = parentOf ?s i"
      by (simp add: parentOf_parentAt [OF inv i] parentOf_parentAt [OF inv i'] pa)
    have t: "Suc i \<in> set (tree ?s) \<longleftrightarrow> i \<in> set (tree ?s)"
      using tree_iff [OF inv] i i' pa by simp
    have d: "depthOf ?s (Suc i) = depthOf ?s i"
    proof (rule depthOf_same_parent [OF p])
      fix q assume "parentOf ?s (Suc i) = Some q"
      then have "parentAt flat i = Some q" using parentOf_parentAt [OF inv i] pa by simp
      then have "q < i" by (rule parentAt_less)
      then show "q < Suc i \<and> q < i" by simp
    qed
    have c1: "Suc i \<notin> set (children (heap ?s ! i))"
    proof
      assume "Suc i \<in> set (children (heap ?s ! i))"
      then have "parentAt flat (Suc i) = Some i" using children_iff [OF inv i'] by simp
      with pa have "parentAt flat i = Some i" by simp
      then have "i < i" by (rule parentAt_less)
      then show False by simp
    qed
    have c2: "i \<notin> set (children (heap ?s ! Suc i))"
    proof
      assume "i \<in> set (children (heap ?s ! Suc i))"
      then have "parentAt flat i = Some (Suc i)" using children_iff [OF inv i] by simp
      then have "Suc i < i" by (rule parentAt_less)
      then show False by simp
    qed
    from p t d c1 c2 show ?thesis by simp
  qed
  have B: "i \<in> set (tree ?s) \<and> parentOf ?s i = None"
    if i: "i < ?n" and one: "getHeadingLevel (h_tag (flat ! i)) = Some 1" for i
  proof -
    have "parentAt flat i = None"
    proof (rule parentAt_level_one)
      show "levelAt flat i = Some 1" using one by (simp add: levelAt_def)
      fix a assume "a < i"
      then show "\<exists>l. levelAt flat a = Some l \<and> 1 \<le> l" using i by (intro lev) simp
    qed
    then show ?thesis using tree_iff [OF inv] parentOf_parentAt [OF inv i] i by simp
  qed
  have C: "h_tag (heap ?s ! i) = h_tag (flat ! i) \<and> h_text (heap ?s ! i) = h_text (flat ! i)
            \<and> h_order (heap ?s ! i) = h_order (flat ! i)" if "i < ?n" for i
    using inv that by (simp add: treeInv_def)
  have stk: "stack (buildState (take c flat)) = stackAt flat c" if "c \<le> ?n" for c
    using treeInv_take [OF that] by (simp add: treeInv_def)
  have D: "stack (buildState (take (Suc c) flat)) =
            (c, getHeadingLevel (h_tag (flat ! c)))
            # dropWhile (\<lambda>(a, l). js_ge (getHeadingLevel (h_tag (flat ! a)))
                                       (getHeadingLevel (h_tag (flat ! c))))
                (stack (buildState (take c flat)))" if "c < ?n" for c
    using that stk [of c] stk [of "Suc c"] by (simp add: popLevels_def levelAt_def)
  have F: "parentOf ?s c = parentAt flat c" if "c < ?n" for c
    by (rule parentOf_parentAt [OF inv that])
  have E: "parentOf ?s c =
            (case dropWhile (\<lambda>(a, l). js_ge (getHeadingLevel (h_tag (flat ! a)))
                                            (getHeadingLevel (h_tag (flat ! c))))
                    (stack (buildState (take c flat))) of
               [] \<Rightarrow> None | (p, l) # rest \<Rightarrow> Some p)" if "c < ?n" for c
    using that stk [of c] F [OF that] by (simp add: parentAt_def popLevels_def levelAt_def)
  have G: "(c \<in> set (tree ?s)) = (parentOf ?s c = None)" if "c < ?n" for c
    using tree_iff [OF inv, of c] F [OF that] that by simp
  have H: "stack ?s = stackAt flat ?n" using stk [of ?n] by simp
  from A B C popStack_dropWhile D E G F H show ?thesis by blast
qed

lemma flatTwins_state:
  "buildState flatTwins =
     \<lparr>heap = [\<lparr>h_tag = ''h1'', h_text = ''A'', h_order = 1, children = [1, 2]\<rparr>,
              \<lparr>h_tag = ''h2'', h_text = ''B'', h_order = 2, children = []\<rparr>,
              \<lparr>h_tag = ''h2'', h_text = ''C'', h_order = 3, children = []\<rparr>,
              \<lparr>h_tag = ''h1'', h_text = ''D'', h_order = 4, children = []\<rparr>],
      tree = [0, 3], stack = [(3, Some 1)]\<rparr>"
  by code_simp

lemma flatTwins_tree:
  "buildHeadingTree flatTwins =
     [HNode ''h1'' ''A'' 1 [HNode ''h2'' ''B'' 2 [], HNode ''h2'' ''C'' 3 []],
      HNode ''h1'' ''D'' 4 []]"
  by code_simp

lemma flatTwins_levels:
  "map (\<lambda>h. getHeadingLevel (h_tag h)) flatTwins = [Some 1, Some 2, Some 2, Some 1]"
  by (simp add: flatTwins_def getHeadingLevel_def digitValue_def)

lemma flatDoc_parents:
  "parentAt flatDoc 0 = None" "parentAt flatDoc 1 = Some 0" "parentAt flatDoc 2 = Some 1"
  "parentAt flatDoc 3 = Some 0" "stackAt flatDoc 4 = [(3, Some 2), (0, Some 1)]"
  by code_simp+

theorem equal_levels_become_siblings_witness:
  "map (\<lambda>h. getHeadingLevel (h_tag h)) flatTwins = [Some 1, Some 2, Some 2, Some 1]
   \<and> parentOf (buildState flatTwins) 2 = parentOf (buildState flatTwins) 1
   \<and> depthOf (buildState flatTwins) 2 = depthOf (buildState flatTwins) 1
   \<and> tree (buildState flatTwins) = [0, 3]
   \<and> buildHeadingTree flatTwins =
       [HNode ''h1'' ''A'' 1 [HNode ''h2'' ''B'' 2 [], HNode ''h2'' ''C'' 3 []],
        HNode ''h1'' ''D'' 4 []]
   \<and> map (\<lambda>h. getHeadingLevel (h_tag h)) flatDoc = [Some 1, Some 2, Some 3, Some 2]
   \<and> map (parentOf (buildState flatDoc)) [0, 1, 2, 3] = [None, Some 0, Some 1, Some 0]
   \<and> stack (buildState flatDoc) = [(3, Some 2), (0, Some 1)]
   \<and> buildHeadingTree flatDoc =
       [HNode ''h1'' ''Title'' 1
          [HNode ''h2'' ''Sec A'' 2 [HNode ''h3'' ''Sub'' 3 []], HNode ''h2'' ''Sec B'' 4 []]]"
proof -
  have n: "\<forall>h\<in>set flatTwins. \<exists>l. getHeadingLevel (h_tag h) = Some l \<and> 1 \<le> l"
    by (simp add: flatTwins_def getHeadingLevel_def digitValue_def)
  have l: "length flatTwins = 4" by (simp add: flatTwins_def)
  have e: "getHeadingLevel (h_tag (flatTwins ! Suc 1)) = getHeadingLevel (h_tag (flatTwins ! 1))"
    by (simp add: flatTwins_def getHeadingLevel_def digitValue_def)
  from equal_levels_become_siblings [OF n] have
    "Suc 1 < length flatTwins
       \<and> getHeadingLevel (h_tag (flatTwins ! Suc 1)) = getHeadingLevel (h_tag (flatTwins ! 1)) \<longrightarrow>
     parentOf (buildState flatTwins) (Suc 1) = parentOf (buildState flatTwins) 1
     \<and> depthOf (buildState flatTwins) (Suc 1) = depthOf (buildState flatTwins) 1"
    by blast
  with l e have "parentOf (buildState flatTwins) (Suc 1) = parentOf (buildState flatTwins) 1
     \<and> depthOf (buildState flatTwins) (Suc 1) = depthOf (buildState flatTwins) 1"
    by simp
  then have tw: "parentOf (buildState flatTwins) 2 = parentOf (buildState flatTwins) 1
     \<and> depthOf (buildState flatTwins) 2 = depthOf (buildState flatTwins) 1"
    by (simp add: numeral_2_eq_2)
  have tt: "tree (buildState flatTwins) = [0, 3]" by (simp add: flatTwins_state)
  have m: "\<forall>h\<in>set flatDoc. \<exists>l. getHeadingLevel (h_tag h) = Some l \<and> 1 \<le> l"
    by (simp add: flatDoc_def getHeadingLevel_def digitValue_def)
  have ld: "length flatDoc = 4" by (simp add: flatDoc_def)
  note d = equal_levels_become_siblings [OF m]
  from d have par: "\<forall>c<length flatDoc. parentOf (buildState flatDoc) c = parentAt flatDoc c"
    and stk: "stack (buildState flatDoc) = stackAt flatDoc (length flatDoc)"
    by blast+
  have one: "parentAt flatDoc (Suc 0) = Some 0" using flatDoc_parents(2) by simp
  have p: "map (parentOf (buildState flatDoc)) [0, 1, 2, 3] = [None, Some 0, Some 1, Some 0]"
    using par ld by (simp add: flatDoc_parents one)
  have s: "stack (buildState flatDoc) = [(3, Some 2), (0, Some 1)]"
    using stk ld by (simp add: flatDoc_parents)
  from tw tt flatTwins_levels flatTwins_tree flatDoc_levels p s flatDoc_tree
  show ?thesis by simp
qed

end
